theory Spec2Isabelle
  imports Main "HOL-Library.Word" "HOL-Library.List_Lexorder" "HOL-Library.Char_ord"
    "HOL-Library.Finite_Map"
begin

unbundle bit_operations_syntax

section \<open>Values shared by the neuron and the network\<close>

text \<open>
  A byte is an 8-bit word. Go's \<^verbatim>\<open>int\<close> is modelled as \<^typ>\<open>int\<close>; every conversion
  to a fixed width (\<^verbatim>\<open>uint16\<close>, \<^verbatim>\<open>uint32\<close>, \<^verbatim>\<open>int32\<close>) and every
  sum that can leave the 64-bit range is written out where the source has it.
  Lengths and loop counters, which never go negative, are \<^typ>\<open>nat\<close>.
\<close>

type_synonym byte = "8 word"

text \<open>
  A Go function of this package ends in one of four ways: it returns a value (with a nil
  error), it returns an error, it panics without anybody recovering, or it waits for ever
  on a channel.
\<close>

datatype error =
    RuntimeError \<comment> \<open>a recovered runtime panic: index or slice bounds out of range\<close>
  | EOF \<comment> \<open>the reader has nothing left\<close>
  | CorruptInput \<comment> \<open>text that is not base32hex\<close>
  | IncomingMismatch \<comment> \<open>"incoming mismatch sensors"\<close>
  | NoSensor \<comment> \<open>"no sensor supplied"\<close>
  | NoAction \<comment> \<open>"no action supplied"\<close>
  | FrontCount nat nat \<comment> \<open>"expected n front neurons, got m"\<close>
  | BackCount nat nat \<comment> \<open>"expected n back neurons, got m"\<close>
  | FrontGenes nat nat nat \<comment> \<open>"[fron neuron i] expected n genes, got m"\<close>
  | BackGenes nat nat nat \<comment> \<open>"[back neuron i] expected n genes, got m"\<close>

datatype 'a outcome = Returned 'a | Failed error | Panicked | Blocked

text \<open>Running one step after another: the first step that does not return ends the run.\<close>

fun and_then :: "'a outcome \<Rightarrow> ('a \<Rightarrow> 'b outcome) \<Rightarrow> 'b outcome" where
  "and_then (Returned x) f = f x"
| "and_then (Failed err) f = Failed err"
| "and_then Panicked f = Panicked"
| "and_then Blocked f = Blocked"

subsection \<open>The byte order helpers of \<^verbatim>\<open>encoding/binary\<close>\<close>

text \<open>
  \<^verbatim>\<open>binary.BigEndian\<close> belongs to Go's library. \<^verbatim>\<open>PutUint16\<close> and
  \<^verbatim>\<open>PutUint32\<close> are given by the bytes they store at the front of the buffer;
  \<^verbatim>\<open>Uint16\<close> and \<^verbatim>\<open>Uint32\<close> index the slice and so raise the runtime's
  index panic (\<open>None\<close> here) on a slice that is too short.
\<close>

definition PutUint16 :: "16 word \<Rightarrow> byte list" where
  "PutUint16 v = [ucast (drop_bit 8 v), ucast v]"

definition PutUint32 :: "32 word \<Rightarrow> byte list" where
  "PutUint32 v = [ucast (drop_bit 24 v), ucast (drop_bit 16 v), ucast (drop_bit 8 v), ucast v]"

definition Uint16 :: "byte list \<Rightarrow> 16 word option" where
  "Uint16 b = (if length b < 2 then None
               else Some (ucast (b ! 1) OR push_bit 8 (ucast (b ! 0))))"

definition Uint32 :: "byte list \<Rightarrow> 32 word option" where
  "Uint32 b = (if length b < 4 then None
               else Some (ucast (b ! 3) OR push_bit 8 (ucast (b ! 2))
                          OR push_bit 16 (ucast (b ! 1)) OR push_bit 24 (ucast (b ! 0))))"

section \<open>The neuron\<close>

text \<open>\<^verbatim>\<open>type neuron []int\<close>: the genes, in order.\<close>

type_synonym neuron = "int list"

definition GetSize :: "neuron \<Rightarrow> nat" where
  "GetSize neu = length neu"

text \<open>\<^verbatim>\<open>neu[index]\<close> panics outside the slice.\<close>

definition GetGene :: "neuron \<Rightarrow> nat \<Rightarrow> int outcome" where
  "GetGene neu index = (if index < length neu then Returned (neu ! index) else Panicked)"

text \<open>
  \<^verbatim>\<open>Equals\<close> compares the sizes first, then walks the receiver's genes against
  \<^verbatim>\<open>other.GetGene(i)\<close> and stops at the first difference. With equal sizes no
  index is out of range.
\<close>

fun Equals_from :: "nat \<Rightarrow> int list \<Rightarrow> neuron \<Rightarrow> bool" where
  "Equals_from i [] other = True"
| "Equals_from i (v # rest) other =
     (if GetGene other i \<noteq> Returned v then False else Equals_from (Suc i) rest other)"

definition Equals :: "neuron \<Rightarrow> neuron \<Rightarrow> bool" where
  "Equals neu other = (if GetSize neu \<noteq> GetSize other then False else Equals_from 0 neu other)"

subsection \<open>Marshal\<close>

text \<open>
  \<^verbatim>\<open>Marshal\<close> starts a goroutine that sends the encoding byte by byte on an unbuffered
  channel and returns the channel. The sender is sequential and the only writer, so what a
  reader receives is one fixed sequence: the list below. The size goes through
  \<^verbatim>\<open>uint16(size)\<close> and each gene through \<^verbatim>\<open>uint32(...)\<close>, which keep the
  low bits; a negative gene is first moved up by \<^verbatim>\<open>0x100000000\<close>.
\<close>

definition gene_word :: "int \<Rightarrow> 32 word" where
  "gene_word gene = (if gene < 0 then word_of_int (0x100000000 + gene) else word_of_int gene)"

definition Marshal :: "neuron \<Rightarrow> byte list" where
  "Marshal neu =
     PutUint16 (word_of_int (int (GetSize neu))) @ concat (map (\<lambda>gene. PutUint32 (gene_word gene)) neu)"

subsection \<open>Decoding a byte slice\<close>

text \<open>
  \<^verbatim>\<open>processBytes\<close> runs in its own goroutine and sends one decoded gene per round on
  \<^verbatim>\<open>res\<close>. Slicing \<^verbatim>\<open>body[i*4:]\<close> beyond the end and \<^verbatim>\<open>Uint32\<close> on fewer
  than four bytes both panic with a runtime error, which the deferred function recovers and
  sends on \<^verbatim>\<open>ech\<close>; nothing is sent after that. The events are listed in the order
  the goroutine produces them.
\<close>

datatype event = Value int | Error error

definition signed_of :: "32 word \<Rightarrow> int" where
  "signed_of v = (if v \<ge> 0x80000000 then uint v - 0x100000000 else uint v)"

fun processBytes_loop :: "byte list \<Rightarrow> nat \<Rightarrow> nat \<Rightarrow> event list" where
  "processBytes_loop body i 0 = []"
| "processBytes_loop body i (Suc n) =
     (if length body < i * 4 then [Error RuntimeError]
      else case Uint32 (drop (i * 4) body) of
             None \<Rightarrow> [Error RuntimeError]
           | Some v \<Rightarrow> Value (signed_of v) # processBytes_loop body (Suc i) n)"

definition processBytes :: "byte list \<Rightarrow> nat \<Rightarrow> event list" where
  "processBytes body n = processBytes_loop body 0 n"

text \<open>
  \<^verbatim>\<open>neuronFromBytes\<close> reads the declared size (a panic of its own goroutine when the
  input has fewer than two bytes), allocates \<^verbatim>\<open>size\<close> zero genes and polls the two
  channels until it has stored \<^verbatim>\<open>size\<close> values or has seen an error. With no event
  left and genes still missing the loop would spin for ever.
\<close>

fun receive :: "event list \<Rightarrow> nat \<Rightarrow> nat \<Rightarrow> neuron \<Rightarrow> neuron outcome" where
  "receive [] i n neu = (if i < n then Blocked else Returned neu)"
| "receive (ev # evs) i n neu =
     (if i < n
      then (case ev of
              Error err \<Rightarrow> Failed err
            | Value v \<Rightarrow> receive evs (Suc i) n (neu[i := v]))
      else Returned neu)"

definition neuronFromBytes :: "byte list \<Rightarrow> neuron outcome" where
  "neuronFromBytes input =
     (case Uint16 input of
        None \<Rightarrow> Panicked
      | Some w \<Rightarrow>
          (let n = unat w
           in receive (processBytes (drop 2 input) n) 0 n (replicate n 0)))"

text \<open>The size a byte sequence declares in its first two bytes.\<close>

definition declared_size :: "byte list \<Rightarrow> nat" where
  "declared_size input = (case Uint16 input of None \<Rightarrow> 0 | Some sz \<Rightarrow> unat sz)"

subsection \<open>The wire format as the specification words it\<close>

text \<open>
  The specification describes the encoding without reference to the code: the gene count
  as an unsigned big-endian 16-bit integer, then every gene as a big-endian
  two's-complement 32-bit integer. \<open>be_bytes k x\<close> is the big-endian \<open>k\<close>-byte numeral
  of \<open>x\<close>, \<open>be_value\<close> reads such a numeral back, and the two's complement of a gene
  in 32 bits is its residue modulo \<open>2 ^ 32\<close>.
\<close>

definition be_bytes :: "nat \<Rightarrow> nat \<Rightarrow> byte list" where
  "be_bytes k x = map (\<lambda>i. of_nat (x div 256 ^ (k - 1 - i))) [0 ..< k]"

definition be_value :: "byte list \<Rightarrow> nat" where
  "be_value bs = foldl (\<lambda>acc b. acc * 256 + unat b) 0 bs"

definition twos_complement32 :: "int \<Rightarrow> nat" where
  "twos_complement32 g = nat (g mod 2 ^ 32)"

definition spec_wire :: "neuron \<Rightarrow> byte list" where
  "spec_wire neu =
     be_bytes 2 (length neu) @ concat (map (\<lambda>g. be_bytes 4 (twos_complement32 g)) neu)"

subsection \<open>Compute\<close>

text \<open>
  \<^verbatim>\<open>Compute\<close> works in \<^verbatim>\<open>float64\<close>. The arithmetic of that type is the
  machine's, not this package's, so it is a parameter here: the type \<open>'f\<close> of the
  values with the six operations the source applies to them.
\<close>

record 'f float64_ops =
  f_zero :: 'f \<comment> \<open>\<^verbatim>\<open>0.0\<close>\<close>
  f_add :: "'f \<Rightarrow> 'f \<Rightarrow> 'f" \<comment> \<open>\<^verbatim>\<open>+\<close>\<close>
  f_mul :: "'f \<Rightarrow> 'f \<Rightarrow> 'f" \<comment> \<open>\<^verbatim>\<open>*\<close>\<close>
  f_of_int :: "int \<Rightarrow> 'f" \<comment> \<open>\<^verbatim>\<open>float64(x)\<close>\<close>
  f_gt_zero :: "'f \<Rightarrow> bool" \<comment> \<open>\<^verbatim>\<open>x > 0\<close>\<close>
  f_to_int :: "'f \<Rightarrow> int" \<comment> \<open>\<^verbatim>\<open>int(x)\<close>\<close>

text \<open>
  The loop \<^verbatim>\<open>for index, value := range data\<close> adds
  \<^verbatim>\<open>value * float64(neu.GetGene(index))\<close> to \<^verbatim>\<open>sum\<close> (here \<open>acc\<close>), in order.
\<close>

fun Compute_loop :: "'f float64_ops \<Rightarrow> neuron \<Rightarrow> nat \<Rightarrow> 'f list \<Rightarrow> 'f \<Rightarrow> 'f outcome" where
  "Compute_loop ops neu index [] acc = Returned acc"
| "Compute_loop ops neu index (v # rest) acc =
     and_then (GetGene neu index)
       (\<lambda>gene. Compute_loop ops neu (Suc index) rest
                  (f_add ops acc (f_mul ops v (f_of_int ops gene))))"

definition Compute :: "'f float64_ops \<Rightarrow> neuron \<Rightarrow> 'f list \<Rightarrow> int outcome" where
  "Compute ops neu data =
     (if length data \<noteq> GetSize neu then Panicked
      else and_then (Compute_loop ops neu 0 data (f_zero ops))
             (\<lambda>acc. Returned (if f_gt_zero ops acc then f_to_int ops acc else 0)))"

text \<open>
  An instance to run the definitions on: exact rational arithmetic, with \<^verbatim>\<open>int(x)\<close>
  rounding towards zero. It agrees with \<^verbatim>\<open>float64\<close> wherever no rounding occurs.
\<close>

definition exact_ops :: "rat float64_ops" where
  "exact_ops = \<lparr>f_zero = 0, f_add = (+), f_mul = (*), f_of_int = of_int,
                 f_gt_zero = (\<lambda>x. 0 < x), f_to_int = (\<lambda>x. if 0 \<le> x then \<lfloor>x\<rfloor> else \<lceil>x\<rceil>)\<rparr>"

subsection \<open>What the loops of Compute add up\<close>

text \<open>
  The value \<^verbatim>\<open>Compute\<close> returns when the parameters are as many as the genes: the
  products are added from the left, starting from zero, and the total goes through the
  threshold.
\<close>

definition weighted_sum :: "'f float64_ops \<Rightarrow> 'f \<Rightarrow> 'f list \<Rightarrow> int list \<Rightarrow> 'f" where
  "weighted_sum ops acc data genes =
     foldl (\<lambda>a (v, gene). f_add ops a (f_mul ops v (f_of_int ops gene))) acc (zip data genes)"

definition threshold :: "'f float64_ops \<Rightarrow> 'f \<Rightarrow> int" where
  "threshold ops acc = (if f_gt_zero ops acc then f_to_int ops acc else 0)"

section \<open>The network\<close>

record neuralnet =
  actions :: "string list"
  frontNeuronSet :: "neuron list"
  backNeuronSet :: "neuron list"
  sensors :: "string list"

text \<open>
  \<^verbatim>\<open>usort\<close> collects the names as the keys of a map, which drops repetitions, and
  sorts the keys with \<^verbatim>\<open>sort.Strings\<close>: byte-wise lexicographic order, the order of
  \<^typ>\<open>string\<close> here.
\<close>

definition usort :: "string list \<Rightarrow> string list" where
  "usort args = sort (remdups args)"

text \<open>
  The two loops of \<^verbatim>\<open>NewNeuralNet\<close> over a layer stop at the first neuron whose size
  is not the expected one and report its index and size.
\<close>

fun first_mismatch :: "nat \<Rightarrow> neuron list \<Rightarrow> nat \<Rightarrow> (nat \<times> nat) option" where
  "first_mismatch i [] expected = None"
| "first_mismatch i (neuron # rest) expected =
     (if GetSize neuron \<noteq> expected then Some (i, GetSize neuron)
      else first_mismatch (Suc i) rest expected)"

definition NewNeuralNet ::
  "string list \<Rightarrow> string list \<Rightarrow> neuron list \<Rightarrow> neuron list \<Rightarrow> neuralnet outcome" where
  "NewNeuralNet sensors0 actions0 frontNeuronSet0 backNeuronSet0 =
     (let sortedSensors = usort sensors0;
          sortedActions = usort actions0;
          sensorsCount = length sortedSensors;
          actionsCount = length sortedActions
      in if sensorsCount = 0 then Failed NoSensor
         else if actionsCount = 0 then Failed NoAction
         else if length frontNeuronSet0 \<noteq> actionsCount
           then Failed (FrontCount actionsCount (length frontNeuronSet0))
         else if length backNeuronSet0 \<noteq> actionsCount
           then Failed (BackCount actionsCount (length backNeuronSet0))
         else case first_mismatch 0 frontNeuronSet0 sensorsCount of
                Some (i, got) \<Rightarrow> Failed (FrontGenes i sensorsCount got)
              | None \<Rightarrow>
                  (case first_mismatch 0 backNeuronSet0 actionsCount of
                     Some (i, got) \<Rightarrow> Failed (BackGenes i actionsCount got)
                   | None \<Rightarrow>
                       Returned \<lparr>actions = sortedActions, frontNeuronSet = frontNeuronSet0,
                                 backNeuronSet = backNeuronSet0, sensors = sortedSensors\<rparr>))"

subsection \<open>Computing the actions\<close>

text \<open>
  The incoming \<^verbatim>\<open>map[string]float64\<close> is a finite map. \<^verbatim>\<open>checkInput\<close> compares
  the number of keys with the number of sensors and then looks every key up among the
  sensors; the order in which Go visits the keys does not change what it returns.
\<close>

definition checkInput :: "neuralnet \<Rightarrow> (string, 'f) fmap \<Rightarrow> error option" where
  "checkInput net incoming =
     (if fcard (fmdom incoming) \<noteq> length (sensors net) then Some IncomingMismatch
      else if \<not> fBall (fmdom incoming) (\<lambda>key. key \<in> set (sensors net)) then Some IncomingMismatch
      else None)"

text \<open>A Go map read gives the zero value for a key that is absent.\<close>

definition incoming_at :: "'f float64_ops \<Rightarrow> (string, 'f) fmap \<Rightarrow> string \<Rightarrow> 'f" where
  "incoming_at ops incoming sensor =
     (case fmlookup incoming sensor of Some v \<Rightarrow> v | None \<Rightarrow> f_zero ops)"

text \<open>
  First loop: every front neuron computes on the input vector and its result is stored in
  \<^verbatim>\<open>middle[i]\<close>. Second loop: every back neuron computes on the middle vector and
  \<^verbatim>\<open>res[net.actions[i]]\<close> is set to whether the result is positive. Both indexings
  panic outside their slice.
\<close>

fun front_loop ::
  "'f float64_ops \<Rightarrow> 'f list \<Rightarrow> nat \<Rightarrow> neuron list \<Rightarrow> int list \<Rightarrow> int list outcome" where
  "front_loop ops input i [] middle = Returned middle"
| "front_loop ops input i (neuron # rest) middle =
     and_then (Compute ops neuron input)
       (\<lambda>v. if i < length middle then front_loop ops input (Suc i) rest (middle[i := v])
            else Panicked)"

fun back_loop ::
  "'f float64_ops \<Rightarrow> string list \<Rightarrow> 'f list \<Rightarrow> nat \<Rightarrow> neuron list \<Rightarrow> (string, bool) fmap
   \<Rightarrow> (string, bool) fmap outcome" where
  "back_loop ops acts input i [] res = Returned res"
| "back_loop ops acts input i (neuron # rest) res =
     (if i < length acts
      then and_then (Compute ops neuron input)
             (\<lambda>v. back_loop ops acts input (Suc i) rest (fmupd (acts ! i) (0 < v) res))
      else Panicked)"

text \<open>
  After \<^verbatim>\<open>checkInput\<close> the incoming map has as many keys as there are sensors, so the
  input vector of length \<^verbatim>\<open>len(incoming)\<close> is filled exactly by the sensors, in
  their order.
\<close>

definition net_Compute ::
  "'f float64_ops \<Rightarrow> neuralnet \<Rightarrow> (string, 'f) fmap \<Rightarrow> (string, bool) fmap outcome" where
  "net_Compute ops net incoming =
     (case checkInput net incoming of
        Some err \<Rightarrow> Failed err
      | None \<Rightarrow>
          and_then
            (front_loop ops (map (incoming_at ops incoming) (sensors net)) 0 (frontNeuronSet net)
               (replicate (length (actions net)) 0))
            (\<lambda>middle. back_loop ops (actions net) (map (f_of_int ops) middle) 0
                         (backNeuronSet net) fmempty))"

text \<open>What \<^verbatim>\<open>NewNeuralNet\<close> checks, as a property of the network it returns.\<close>

definition well_formed :: "neuralnet \<Rightarrow> bool" where
  "well_formed net \<longleftrightarrow>
     distinct (sensors net) \<and> sorted (sensors net) \<and> sensors net \<noteq> []
   \<and> distinct (actions net) \<and> sorted (actions net) \<and> actions net \<noteq> []
   \<and> length (frontNeuronSet net) = length (actions net)
   \<and> length (backNeuronSet net) = length (actions net)
   \<and> (\<forall>n \<in> set (frontNeuronSet net). GetSize n = length (sensors net))
   \<and> (\<forall>n \<in> set (backNeuronSet net). GetSize n = length (actions net))"

section \<open>Child\<close>

text \<open>
  Here the width of \<^verbatim>\<open>int\<close> matters. It is taken as 64 bits, as on the platforms Go
  mainly targets: \<^verbatim>\<open>int32(dev)\<close> keeps the low 32 bits of \<^verbatim>\<open>dev\<close> as a signed
  number, sums wrap around at 64 bits, and \<^verbatim>\<open>/\<close> rounds towards zero.
\<close>

definition int32 :: "int \<Rightarrow> int" where
  "int32 x = (x + 2 ^ 31) mod 2 ^ 32 - 2 ^ 31"

definition wrap_int :: "int \<Rightarrow> int" where
  "wrap_int x = (x + 2 ^ 63) mod 2 ^ 64 - 2 ^ 63"

definition go_div :: "int \<Rightarrow> int \<Rightarrow> int" where
  "go_div a b = sgn a * sgn b * (\<bar>a\<bar> div \<bar>b\<bar>)"

text \<open>
  \<^verbatim>\<open>rand.Int31n\<close> reads and advances the process-wide generator of
  \<^verbatim>\<open>math/rand\<close>. The generator is a parameter: a state \<open>'g\<close> and a function
  \<open>draw\<close> that gives the next number below \<open>n\<close> and the next state. As the library
  documents, \<^verbatim>\<open>Int31n\<close> panics when \<open>n \<le> 0\<close>.
\<close>

definition Int31n :: "('g \<Rightarrow> int \<Rightarrow> int \<times> 'g) \<Rightarrow> 'g \<Rightarrow> int \<Rightarrow> (int \<times> 'g) outcome" where
  "Int31n draw g n = (if n \<le> 0 then Panicked else Returned (draw g n))"

text \<open>
  \<^verbatim>\<open>child[i] = value + int(rand.Int31n(int32(dev))) - (dev / 2)\<close>, gene after gene;
  the result is the child together with the generator state left behind.
\<close>

fun Child_loop ::
  "('g \<Rightarrow> int \<Rightarrow> int \<times> 'g) \<Rightarrow> int \<Rightarrow> 'g \<Rightarrow> int list \<Rightarrow> (neuron \<times> 'g) outcome" where
  "Child_loop draw dev g [] = Returned ([], g)"
| "Child_loop draw dev g (v # rest) =
     and_then (Int31n draw g (int32 dev))
       (\<lambda>(u, g'). and_then (Child_loop draw dev g' rest)
          (\<lambda>(child, g''). Returned (wrap_int (wrap_int (v + u) - go_div dev 2) # child, g'')))"

definition Child :: "('g \<Rightarrow> int \<Rightarrow> int \<times> 'g) \<Rightarrow> 'g \<Rightarrow> neuron \<Rightarrow> int \<Rightarrow> (neuron \<times> 'g) outcome" where
  "Child draw g neu dev = Child_loop draw dev g neu"

text \<open>
  The numbers a generator hands out when it is asked \<open>k\<close> times in a row for a number
  below \<open>n\<close>, together with the state it is left in.
\<close>

fun draws :: "('g \<Rightarrow> int \<Rightarrow> int \<times> 'g) \<Rightarrow> int \<Rightarrow> 'g \<Rightarrow> nat \<Rightarrow> int list \<times> 'g" where
  "draws draw n g 0 = ([], g)"
| "draws draw n g (Suc k) =
     (case draw g n of
        (u, g') \<Rightarrow> (case draws draw n g' k of (us, g'') \<Rightarrow> (u # us, g'')))"

text \<open>
  A generator to run the definitions on: a counter, whose draw below \<open>n\<close> is the counter
  modulo \<open>n\<close>.
\<close>

definition counter_draw :: "int \<Rightarrow> int \<Rightarrow> int \<times> int" where
  "counter_draw g n = (g mod n, g + 1)"

section \<open>Neurons as slices in a store\<close>

text \<open>
  A \<^verbatim>\<open>neuron\<close> is a slice, that is a reference to a backing array, and so is the
  \<^verbatim>\<open>[]int\<close> a caller passes to \<^verbatim>\<open>NewNeuron\<close>. To tell a copy from a second
  reference to the same array, the arrays live in a store under addresses. The
  \<^verbatim>\<open>[]int\<close> arm of \<^verbatim>\<open>NewNeuron\<close> allocates with \<^verbatim>\<open>make\<close> and copies; the
  \<^verbatim>\<open>Neuron\<close> arm returns the value it was given.
\<close>

record store =
  arrays :: "nat \<Rightarrow> int list option"
  fresh :: nat

datatype source = OfInts nat | OfNeuron nat

definition contents :: "store \<Rightarrow> nat \<Rightarrow> int list" where
  "contents s a = (case arrays s a of None \<Rightarrow> [] | Some genes \<Rightarrow> genes)"

definition NewNeuron_in_store :: "store \<Rightarrow> source \<Rightarrow> (nat \<times> store) outcome" where
  "NewNeuron_in_store s src =
     (case src of
        OfInts a \<Rightarrow>
          (let neu = fresh s
           in Returned (neu, s\<lparr>arrays := (arrays s)(neu \<mapsto> contents s a), fresh := Suc neu\<rparr>))
      | OfNeuron a \<Rightarrow> Returned (a, s))"

text \<open>An assignment \<^verbatim>\<open>neu[i] = v\<close> through the reference \<open>a\<close>.\<close>

definition assign_gene :: "store \<Rightarrow> nat \<Rightarrow> nat \<Rightarrow> int \<Rightarrow> store" where
  "assign_gene s a i v = s\<lparr>arrays := (arrays s)(a \<mapsto> (contents s a)[i := v])\<rparr>"

definition one_neuron_store :: store where
  "one_neuron_store = \<lparr>arrays = [0 \<mapsto> [1, 2, 3]], fresh = 1\<rparr>"

subsection \<open>Compute as the specification words it\<close>

text \<open>
  The specification speaks of the real-valued sum of the products and of its truncation
  towards zero. Every finite \<^verbatim>\<open>float64\<close> is a rational number, so the parameters
  are rationals here.
\<close>

definition real_sum :: "neuron \<Rightarrow> rat list \<Rightarrow> rat" where
  "real_sum neu data = sum_list (map (\<lambda>(v, gene). v * of_int gene) (zip data neu))"

definition trunc_zero :: "rat \<Rightarrow> int" where
  "trunc_zero x = (if 0 \<le> x then \<lfloor>x\<rfloor> else \<lceil>x\<rceil>)"

definition spec_Compute :: "neuron \<Rightarrow> rat list \<Rightarrow> int" where
  "spec_Compute neu data = (if 0 < real_sum neu data then trunc_zero (real_sum neu data) else 0)"

text \<open>
  An arithmetic that is exact, as \<^verbatim>\<open>float64\<close> is wherever no rounding occurs, and
  whose \<^verbatim>\<open>int(x)\<close> gives a Go \<^verbatim>\<open>int\<close>: the truncation when it fits in 64 bits.
  Go leaves the result of the conversion to the implementation when it does not fit;
  the least \<^verbatim>\<open>int\<close> is taken here, as \<^verbatim>\<open>amd64\<close> gives.
\<close>

definition int_of_float :: "rat \<Rightarrow> int" where
  "int_of_float x =
     (if - (2 ^ 63) \<le> trunc_zero x \<and> trunc_zero x < 2 ^ 63 then trunc_zero x else - (2 ^ 63))"

definition exact64_ops :: "rat float64_ops" where
  "exact64_ops = \<lparr>f_zero = 0, f_add = (+), f_mul = (*), f_of_int = of_int,
                   f_gt_zero = (\<lambda>x. 0 < x), f_to_int = int_of_float\<rparr>"

section \<open>Saving and loading a network\<close>

text \<open>
  Go strings are byte sequences; a \<^typ>\<open>char\<close> is one byte.
\<close>

definition byte_of_char :: "char \<Rightarrow> byte" where
  "byte_of_char c = of_nat (of_char c)"

definition char_of_byte :: "byte \<Rightarrow> char" where
  "char_of_byte b = char_of (unat b)"

subsection \<open>The reader\<close>

text \<open>
  The \<^verbatim>\<open>io.Reader\<close> is the caller's. It is modelled as the bytes still to come, with
  the \<^verbatim>\<open>Read\<close> of an in-memory buffer: a read into \<open>n\<close> bytes of room takes up to
  \<open>n\<close> bytes, and reports \<^verbatim>\<open>io.EOF\<close> only when room was offered and nothing is
  left. The functions below never look at the number of bytes read; what a short read
  leaves untouched in the destination stays zero.
\<close>

definition Read :: "nat \<Rightarrow> byte list \<Rightarrow> (byte list \<times> byte list) outcome" where
  "Read n input =
     (if input = [] \<and> 0 < n then Failed EOF else Returned (take n input, drop n input))"

definition filled :: "nat \<Rightarrow> byte list \<Rightarrow> byte list" where
  "filled n got = got @ replicate (n - length got) 0"

text \<open>
  \<^verbatim>\<open>readFile\<close> reads two bytes for the size, allocates \<^verbatim>\<open>2 + 4 * size\<close> bytes,
  reads the rest into them and hands the whole to \<^verbatim>\<open>neuronFromBytes\<close>.
\<close>

definition readFile :: "byte list \<Rightarrow> (neuron \<times> byte list) outcome" where
  "readFile input =
     and_then (Read 2 input)
       (\<lambda>(got, rest).
          let buf = filled 2 got
          in case Uint16 buf of
               None \<Rightarrow> Panicked
             | Some w \<Rightarrow>
                 (let n = 4 * unat w
                  in and_then (Read n rest)
                       (\<lambda>(got', rest').
                          and_then (neuronFromBytes (buf @ filled n got'))
                            (\<lambda>neu. Returned (neu, rest')))))"

text \<open>
  \<^verbatim>\<open>loadNeurons\<close> reads a four-byte field, takes its first two bytes as the number
  of neurons and reads that many with \<^verbatim>\<open>NewNeuron(input)\<close>, which for a reader is
  \<^verbatim>\<open>readFile\<close>.
\<close>

fun loadNeurons_loop :: "nat \<Rightarrow> byte list \<Rightarrow> neuron list \<Rightarrow> (neuron list \<times> byte list) outcome" where
  "loadNeurons_loop 0 input res = Returned (res, input)"
| "loadNeurons_loop (Suc n) input res =
     and_then (readFile input) (\<lambda>(neu, rest). loadNeurons_loop n rest (res @ [neu]))"

definition loadNeurons :: "byte list \<Rightarrow> (neuron list \<times> byte list) outcome" where
  "loadNeurons input =
     and_then (Read 4 input)
       (\<lambda>(got, rest).
          case Uint16 (filled 4 got) of
            None \<Rightarrow> Panicked
          | Some w \<Rightarrow> loadNeurons_loop (unat w) rest [])"

text \<open>
  \<^verbatim>\<open>loadStrings\<close> reads the count the same way and then, for every name, single
  bytes up to and without the first zero byte.
\<close>

fun read_name :: "byte list \<Rightarrow> string \<Rightarrow> (string \<times> byte list) outcome" where
  "read_name [] str = Failed EOF"
| "read_name (b # rest) str =
     (if b \<noteq> 0 then read_name rest (str @ [char_of_byte b]) else Returned (str, rest))"

fun loadStrings_loop :: "nat \<Rightarrow> byte list \<Rightarrow> string list \<Rightarrow> (string list \<times> byte list) outcome" where
  "loadStrings_loop 0 input names = Returned (names, input)"
| "loadStrings_loop (Suc n) input names =
     and_then (read_name input []) (\<lambda>(str, rest). loadStrings_loop n rest (names @ [str]))"

definition loadStrings :: "byte list \<Rightarrow> (string list \<times> byte list) outcome" where
  "loadStrings input =
     and_then (Read 4 input)
       (\<lambda>(got, rest).
          case Uint16 (filled 4 got) of
            None \<Rightarrow> Panicked
          | Some w \<Rightarrow> loadStrings_loop (unat w) rest [])"

definition LoadNet :: "byte list \<Rightarrow> neuralnet outcome" where
  "LoadNet input =
     and_then (Read 4 input)
       (\<lambda>(discarded, rest).
          and_then (loadStrings rest)
            (\<lambda>(sensors0, rest1).
               and_then (loadStrings rest1)
                 (\<lambda>(actions0, rest2).
                    and_then (loadNeurons rest2)
                      (\<lambda>(front, rest3).
                         and_then (loadNeurons rest3)
                           (\<lambda>(back, rest4). NewNeuralNet sensors0 actions0 front back)))))"

subsection \<open>Save\<close>

text \<open>
  \<^verbatim>\<open>Save\<close> writes every count with \<^verbatim>\<open>PutUint16\<close> into the first two bytes of
  a four-byte array whose other two bytes are never written, and appends all four. A
  name is its bytes and a zero byte; a neuron is the first \<^verbatim>\<open>2 + 4 * size\<close> bytes
  of its \<^verbatim>\<open>Marshal\<close> channel. The result is what reaches the writer when the writer
  accepts everything; an error of the writer is returned as it is.
\<close>

definition count_field :: "nat \<Rightarrow> byte list" where
  "count_field n = PutUint16 (word_of_int (int n)) @ [0, 0]"

definition name_bytes :: "string \<Rightarrow> byte list" where
  "name_bytes name = map byte_of_char name @ [0]"

definition neuron_bytes :: "neuron \<Rightarrow> byte list" where
  "neuron_bytes neu = take (2 + 4 * GetSize neu) (Marshal neu)"

definition Save_payload :: "neuralnet \<Rightarrow> byte list" where
  "Save_payload net =
     count_field (length (sensors net)) @ concat (map name_bytes (sensors net))
     @ count_field (length (actions net)) @ concat (map name_bytes (actions net))
     @ count_field (length (frontNeuronSet net)) @ concat (map neuron_bytes (frontNeuronSet net))
     @ count_field (length (backNeuronSet net)) @ concat (map neuron_bytes (backNeuronSet net))
     @ [0, 0, 0, 0]"

definition Save :: "neuralnet \<Rightarrow> byte list" where
  "Save net = count_field (length (Save_payload net)) @ Save_payload net"

section \<open>The text form\<close>

subsection \<open>base32hex without padding\<close>

text \<open>
  \<^verbatim>\<open>base32.HexEncoding.WithPadding(base32.NoPadding)\<close> and \<^verbatim>\<open>strings.TrimSpace\<close>
  belong to Go's library. They are modelled from RFC 4648 and the library's documentation.
  The bytes are read as one row of bits, most significant bit first; every five bits
  select a character of the alphabet, and a last group of fewer than five bits is filled
  up with zero bits.
\<close>

definition hex32 :: string where
  "hex32 = ''0123456789ABCDEFGHIJKLMNOPQRSTUV''"

fun nat_bits :: "nat \<Rightarrow> nat \<Rightarrow> bool list" where
  "nat_bits 0 n = []"
| "nat_bits (Suc k) n = nat_bits k (n div 2) @ [odd n]"

definition bits_nat :: "bool list \<Rightarrow> nat" where
  "bits_nat bs = foldl (\<lambda>n b. 2 * n + (if b then 1 else 0)) 0 bs"

function chunks :: "nat \<Rightarrow> 'a list \<Rightarrow> 'a list list" where
  "chunks n xs = (if n = 0 \<or> xs = [] then [] else take n xs # chunks n (drop n xs))"
  by pat_completeness auto
termination
  by (relation "measure (\<lambda>(n, xs). length xs)") auto

definition EncodeToString :: "byte list \<Rightarrow> string" where
  "EncodeToString src =
     map (\<lambda>g. hex32 ! bits_nat (g @ replicate (5 - length g) False))
       (chunks 5 (concat (map (\<lambda>b. nat_bits 8 (unat b)) src)))"

text \<open>
  Decoding drops carriage returns and line feeds and looks every character up in the
  alphabet; a character outside it is an error. Every full group of eight characters
  gives five bytes. A last group of two, four, five or seven characters gives one, two,
  three or four bytes, its left-over bits being dropped; a last group of one, three or
  six characters gives no byte and no error.
\<close>

fun index_of :: "'a \<Rightarrow> 'a list \<Rightarrow> nat option" where
  "index_of c [] = None"
| "index_of c (x # xs) = (if c = x then Some 0 else map_option Suc (index_of c xs))"

definition last_group_bytes :: "nat \<Rightarrow> nat" where
  "last_group_bytes dlen =
     (if dlen = 7 then 4 else if dlen = 5 then 3 else if dlen = 4 then 2
      else if dlen = 2 then 1 else 0)"

definition DecodeString :: "string \<Rightarrow> byte list outcome" where
  "DecodeString s =
     (let t = filter (\<lambda>c. c \<noteq> CHR 0x0D \<and> c \<noteq> CHR 0x0A) s
      in if \<exists>c \<in> set t. index_of c hex32 = None then Failed CorruptInput
         else Returned
                (map (\<lambda>g. of_nat (bits_nat g))
                   (take (5 * (length t div 8) + last_group_bytes (length t mod 8))
                      (chunks 8 (concat (map (\<lambda>c. nat_bits 5 (the (index_of c hex32))) t))))))"

text \<open>
  \<^verbatim>\<open>strings.TrimSpace\<close> removes Unicode white space at both ends. A Go string holds
  UTF-8, so a white space character is one of the byte sequences below: the six ASCII
  spaces, then U+0085, U+00A0, U+1680, U+2000 to U+200A, U+2028, U+2029, U+202F, U+205F
  and U+3000.
\<close>

definition white_space :: "string list" where
  "white_space =
     [[CHR 0x09], [CHR 0x0A], [CHR 0x0B], [CHR 0x0C], [CHR 0x0D], [CHR 0x20],
      [CHR 0xC2, CHR 0x85], [CHR 0xC2, CHR 0xA0], [CHR 0xE1, CHR 0x9A, CHR 0x80],
      [CHR 0xE2, CHR 0x80, CHR 0x80], [CHR 0xE2, CHR 0x80, CHR 0x81],
      [CHR 0xE2, CHR 0x80, CHR 0x82], [CHR 0xE2, CHR 0x80, CHR 0x83],
      [CHR 0xE2, CHR 0x80, CHR 0x84], [CHR 0xE2, CHR 0x80, CHR 0x85],
      [CHR 0xE2, CHR 0x80, CHR 0x86], [CHR 0xE2, CHR 0x80, CHR 0x87],
      [CHR 0xE2, CHR 0x80, CHR 0x88], [CHR 0xE2, CHR 0x80, CHR 0x89],
      [CHR 0xE2, CHR 0x80, CHR 0x8A], [CHR 0xE2, CHR 0x80, CHR 0xA8],
      [CHR 0xE2, CHR 0x80, CHR 0xA9], [CHR 0xE2, CHR 0x80, CHR 0xAF],
      [CHR 0xE2, CHR 0x81, CHR 0x9F], [CHR 0xE3, CHR 0x80, CHR 0x80]]"

text \<open>
  \<open>trim ws\<close> removes the sequences of \<open>ws\<close> from the front for as long as one
  of them is there. At the far end the same is done on the reversed string with the
  reversed sequences.
\<close>

definition space_length :: "string list \<Rightarrow> string \<Rightarrow> nat" where
  "space_length ws s =
     (case find (\<lambda>w. take (length w) s = w) ws of None \<Rightarrow> 0 | Some w \<Rightarrow> length w)"

function trim :: "string list \<Rightarrow> string \<Rightarrow> string" where
  "trim ws s = (if space_length ws s = 0 then s else trim ws (drop (space_length ws s) s))"
  by pat_completeness auto
termination
proof (relation "measure (\<lambda>(ws, s). length s)")
  show "wf (measure (\<lambda>(ws, s). length s))" by simp
next
  fix ws and s :: string
  assume pos: "space_length ws s \<noteq> 0"
  then obtain w where w: "find (\<lambda>w. take (length w) s = w) ws = Some w"
    by (auto simp add: space_length_def split: option.splits)
  have "length w \<noteq> 0" using pos by (simp add: space_length_def w)
  moreover have "take (length w) s = w" using w by (auto simp add: find_Some_iff)
  ultimately have "s \<noteq> []" by auto
  then show "((ws, drop (space_length ws s) s), (ws, s)) \<in> measure (\<lambda>(ws, s). length s)"
    using pos by simp
qed

definition TrimSpace :: "string \<Rightarrow> string" where
  "TrimSpace s = rev (trim (map rev white_space) (rev (trim white_space s)))"

subsection \<open>String and the arms of NewNeuron\<close>

text \<open>
  \<^verbatim>\<open>String\<close> receives \<^verbatim>\<open>2 + 4 * size\<close> bytes from the \<^verbatim>\<open>Marshal\<close> channel
  and encodes them.
\<close>

definition String :: "neuron \<Rightarrow> string" where
  "String neu = EncodeToString (take (2 + 4 * GetSize neu) (Marshal neu))"

text \<open>
  \<^verbatim>\<open>NewNeuron\<close> switches on the dynamic type of its argument. Three arms are needed
  here: a \<^verbatim>\<open>[]int\<close> is copied into a new neuron, a \<^verbatim>\<open>[]byte\<close> goes to
  \<^verbatim>\<open>neuronFromBytes\<close>, and a \<^verbatim>\<open>string\<close> is trimmed, decoded and, if that
  succeeds, handed to \<^verbatim>\<open>neuronFromBytes\<close>.
\<close>

datatype data = Ints "int list" | Bytes "byte list" | Text string

fun NewNeuron :: "data \<Rightarrow> neuron outcome" where
  "NewNeuron (Ints v) = Returned v"
| "NewNeuron (Bytes v) = neuronFromBytes v"
| "NewNeuron (Text v) = and_then (DecodeString (TrimSpace v)) neuronFromBytes"

section \<open>Facts about the byte order helpers\<close>

lemma Uint16_PutUint16: "Uint16 (PutUint16 v @ rest) = Some v"
  unfolding Uint16_def PutUint16_def
  apply simp
  apply (rule bit_word_eqI)
  apply (auto simp add: bit_simps)
  done

lemma Uint32_PutUint32: "Uint32 (PutUint32 v @ rest) = Some v"
  unfolding Uint32_def PutUint32_def
  apply simp
  apply (rule bit_word_eqI)
  subgoal for n
    apply (cases "n < 8"; cases "n < 16"; cases "n < 24")
           apply (auto simp add: bit_simps)
    done
  done

lemma length_PutUint16 [simp]: "length (PutUint16 v) = 2"
  by (simp add: PutUint16_def)

lemma length_PutUint32 [simp]: "length (PutUint32 v) = 4"
  by (simp add: PutUint32_def)

lemma Uint32_take: "4 \<le> length b \<Longrightarrow> Uint32 (take 4 b) = Uint32 b"
  by (simp add: Uint32_def)

lemma Uint16_take: "2 \<le> length b \<Longrightarrow> Uint16 (take (2 + k) b) = Uint16 b"
  by (simp add: Uint16_def)

section \<open>Facts about decoding\<close>

text \<open>The genes a body holds when it is long enough: one per group of four bytes.\<close>

definition gene_at :: "byte list \<Rightarrow> nat \<Rightarrow> int" where
  "gene_at body k = signed_of (the (Uint32 (drop (k * 4) body)))"

lemma processBytes_loop_enough:
  "(i + n) * 4 \<le> length body \<Longrightarrow>
   processBytes_loop body i n = map (\<lambda>k. Value (gene_at body k)) [i ..< i + n]"
proof (induction n arbitrary: i)
  case 0
  then show ?case by simp
next
  case (Suc n)
  have len: "4 \<le> length (drop (i * 4) body)" using Suc.prems by simp
  then obtain v where v: "Uint32 (drop (i * 4) body) = Some v"
    by (auto simp add: Uint32_def)
  have "processBytes_loop body (Suc i) n = map (\<lambda>k. Value (gene_at body k)) [Suc i ..< Suc i + n]"
    using Suc.prems by (intro Suc.IH) simp
  moreover have "\<not> length body < i * 4" using Suc.prems by simp
  moreover have "[i ..< i + Suc n] = i # [Suc i ..< Suc i + n]"
    by (simp add: upt_conv_Cons)
  ultimately show ?case
    using v by (simp add: gene_at_def del: upt_Suc)
qed

lemma processBytes_loop_short:
  "i * 4 \<le> length body \<Longrightarrow> length body < (i + n) * 4 \<Longrightarrow>
   \<exists>vs. processBytes_loop body i n = map Value vs @ [Error RuntimeError] \<and> length vs < n"
proof (induction n arbitrary: i)
  case 0
  then show ?case by simp
next
  case (Suc n)
  show ?case
  proof (cases "Uint32 (drop (i * 4) body)")
    case None
    then have "processBytes_loop body i (Suc n) = map Value [] @ [Error RuntimeError]"
      by simp
    then show ?thesis by (intro exI [of _ "[]"]) simp
  next
    case (Some v)
    then have four: "Suc i * 4 \<le> length body"
      by (auto simp add: Uint32_def split: if_splits)
    moreover have "length body < (Suc i + n) * 4" using Suc.prems by simp
    ultimately obtain vs where vs:
      "processBytes_loop body (Suc i) n = map Value vs @ [Error RuntimeError]" "length vs < n"
      using Suc.IH [of "Suc i"] by blast
    have "processBytes_loop body i (Suc n) = map Value (signed_of v # vs) @ [Error RuntimeError]"
      using Some Suc.prems vs by simp
    then show ?thesis using vs(2) by (intro exI [of _ "signed_of v # vs"]) simp
  qed
qed

lemma receive_values_error:
  "i + length vs < n \<Longrightarrow> receive (map Value vs @ Error err # evs) i n neu = Failed err"
  by (induction vs arbitrary: i neu) simp_all

lemma receive_values:
  "i + length vs = n \<Longrightarrow> length neu = n \<Longrightarrow>
   receive (map Value vs) i n neu = Returned (take i neu @ vs)"
proof (induction vs arbitrary: i neu)
  case Nil
  then show ?case by simp
next
  case (Cons v vs)
  have "receive (map Value vs) (Suc i) n (neu[i := v]) = Returned (take (Suc i) (neu[i := v]) @ vs)"
    using Cons.prems by (intro Cons.IH) simp_all
  moreover have "take (Suc i) (neu[i := v]) = take i neu @ [v]"
    using Cons.prems by (simp add: take_Suc_conv_app_nth)
  ultimately show ?case using Cons.prems by simp
qed

lemma neuronFromBytes_enough:
  assumes "Uint16 input = Some sz" and "2 + 4 * unat sz \<le> length input"
  shows "neuronFromBytes input = Returned (map (gene_at (drop 2 input)) [0 ..< unat sz])"
proof -
  have "processBytes (drop 2 input) (unat sz)
        = map Value (map (gene_at (drop 2 input)) [0 ..< unat sz])"
    using assms(2) processBytes_loop_enough [of 0 "unat sz" "drop 2 input"]
    by (simp add: processBytes_def comp_def)
  then show ?thesis
    using assms(1) receive_values [of 0 "map (gene_at (drop 2 input)) [0 ..< unat sz]" "unat sz"
        "replicate (unat sz) 0"]
    by (simp add: neuronFromBytes_def)
qed

lemma neuronFromBytes_short:
  assumes "Uint16 input = Some sz" and "length input < 2 + 4 * unat sz"
  shows "neuronFromBytes input = Failed RuntimeError"
proof -
  have two: "2 \<le> length input" using assms(1) by (auto simp add: Uint16_def split: if_splits)
  then have "length (drop 2 input) < (0 + unat sz) * 4" using assms(2) by simp
  then obtain vs where vs:
    "processBytes (drop 2 input) (unat sz) = map Value vs @ [Error RuntimeError]"
    "length vs < unat sz"
    using processBytes_loop_short [of 0 "drop 2 input" "unat sz"]
    by (auto simp add: processBytes_def)
  show ?thesis
    using assms(1) vs receive_values_error [of 0 vs "unat sz" RuntimeError "[]"]
    by (simp add: neuronFromBytes_def)
qed

section \<open>Facts about the encoding\<close>

lemma gene_word_eq: "gene_word g = word_of_int g"
proof -
  have "(word_of_int (4294967296 + g) :: 32 word) = word_of_int g"
    by (simp add: word_of_int_eq_iff take_bit_eq_mod)
  then show ?thesis by (simp only: gene_word_def if_cancel split: if_split)
qed

lemma ucast_drop_of_nat:
  "k + 8 \<le> LENGTH('a) \<Longrightarrow> (ucast (drop_bit k (of_nat x :: 'a::len word)) :: byte) = of_nat (x div 2 ^ k)"
  apply (rule bit_word_eqI)
  apply (simp add: bit_simps bit_of_nat_iff flip: drop_bit_eq_div)
  done

lemma mod_2_32_cases:
  fixes g :: int
  assumes "- (2 ^ 31) \<le> g" "g < 2 ^ 31"
  shows "g mod 2 ^ 32 = (if g < 0 then g + 2 ^ 32 else g)"
proof (cases "g < 0")
  case True
  have "(g + 2 ^ 32) mod 2 ^ 32 = g + 2 ^ 32"
    using assms True by (intro mod_pos_pos_trivial) simp_all
  then show ?thesis using True by simp
next
  case False
  then have "g mod 2 ^ 32 = g" using assms by (intro mod_pos_pos_trivial) simp_all
  then show ?thesis using False by simp
qed

lemma signed_of_gene_word:
  assumes "- (2 ^ 31) \<le> g" "g < 2 ^ 31"
  shows "signed_of (gene_word g) = g"
proof -
  have u: "uint (word_of_int g :: 32 word) = (if g < 0 then g + 2 ^ 32 else g)"
    using mod_2_32_cases [OF assms] by (simp add: uint_word_of_int)
  have c: "(0x80000000 :: 32 word) \<le> word_of_int g \<longleftrightarrow> 2 ^ 31 \<le> uint (word_of_int g :: 32 word)"
    by (simp add: word_le_def)
  show ?thesis
    unfolding gene_word_eq signed_of_def c u using assms by simp
qed

lemma upt2: "[0 ..< 2] = [0, Suc 0]"
  by (simp add: upt_conv_Cons numeral_2_eq_2)

lemma be_bytes_2: "be_bytes 2 x = [of_nat (x div 256), of_nat x]"
  unfolding be_bytes_def upt2 by simp

lemma upt4: "[0 ..< 4] = [0, Suc 0, Suc (Suc 0), Suc (Suc (Suc 0))]"
  by (simp add: upt_conv_Cons)

lemma be_bytes_4:
  "be_bytes 4 x = [of_nat (x div 16777216), of_nat (x div 65536), of_nat (x div 256), of_nat x]"
  unfolding be_bytes_def upt4 by simp

lemma word_of_int_nat_mod: "(word_of_int g :: 32 word) = of_nat (nat (g mod 2 ^ 32))"
proof -
  have "(word_of_int (g mod 2 ^ 32) :: 32 word) = word_of_int g"
    by (simp add: word_of_int_eq_iff take_bit_eq_mod)
  moreover have "(of_nat (nat (g mod 2 ^ 32)) :: 32 word) = of_int (g mod 2 ^ 32)"
    by (rule of_nat_nat) simp
  ultimately show ?thesis by (simp only:)
qed

lemma PutUint16_be: "PutUint16 (of_nat n) = be_bytes 2 n"
proof -
  have "(ucast (drop_bit 8 (of_nat n :: 16 word)) :: byte) = of_nat (n div 2 ^ 8)"
    by (rule ucast_drop_of_nat) simp
  moreover have "(ucast (drop_bit 0 (of_nat n :: 16 word)) :: byte) = of_nat (n div 2 ^ 0)"
    by (rule ucast_drop_of_nat) simp
  ultimately show ?thesis by (simp add: PutUint16_def be_bytes_2)
qed

lemma PutUint32_be: "PutUint32 (gene_word g) = be_bytes 4 (twos_complement32 g)"
proof -
  define x where "x = nat (g mod 2 ^ 32)"
  have w: "gene_word g = of_nat x"
    unfolding gene_word_eq x_def by (rule word_of_int_nat_mod)
  have "(ucast (drop_bit 24 (of_nat x :: 32 word)) :: byte) = of_nat (x div 2 ^ 24)"
    by (rule ucast_drop_of_nat) simp
  moreover have "(ucast (drop_bit 16 (of_nat x :: 32 word)) :: byte) = of_nat (x div 2 ^ 16)"
    by (rule ucast_drop_of_nat) simp
  moreover have "(ucast (drop_bit 8 (of_nat x :: 32 word)) :: byte) = of_nat (x div 2 ^ 8)"
    by (rule ucast_drop_of_nat) simp
  moreover have "(ucast (drop_bit 0 (of_nat x :: 32 word)) :: byte) = of_nat (x div 2 ^ 0)"
    by (rule ucast_drop_of_nat) simp
  moreover have tc: "twos_complement32 g = x"
    by (simp only: twos_complement32_def x_def)
  ultimately show ?thesis
    unfolding w tc PutUint32_def be_bytes_4 by simp
qed

lemma Marshal_spec_wire: "Marshal neu = spec_wire neu"
  by (simp add: Marshal_def spec_wire_def GetSize_def PutUint16_be PutUint32_be)

lemma length_Marshal: "length (Marshal neu) = 2 + 4 * length neu"
  by (simp add: Marshal_def length_concat comp_def sum_list_triv)

lemma Equals_from_iff:
  "Equals_from i xs other \<longleftrightarrow> (\<forall>j < length xs. i + j < length other \<and> other ! (i + j) = xs ! j)"
proof (induction xs arbitrary: i)
  case Nil
  then show ?case by simp
next
  case (Cons v xs)
  show ?case
    by (auto simp add: Cons.IH GetGene_def All_less_Suc2)
qed

lemma Equals_iff: "Equals neu other \<longleftrightarrow> neu = other"
proof (cases "length neu = length other")
  case True
  then have "Equals neu other \<longleftrightarrow> (\<forall>j < length neu. other ! j = neu ! j)"
    by (simp add: Equals_def GetSize_def Equals_from_iff)
  also have "\<dots> \<longleftrightarrow> neu = other"
    using True by (auto simp add: list_eq_iff_nth_eq)
  finally show ?thesis .
next
  case False
  then show ?thesis by (auto simp add: Equals_def GetSize_def)
qed

lemma drop_concat_fixed:
  "(\<And>x. length (f x) = m) \<Longrightarrow> drop (k * m) (concat (map f xs)) = concat (map f (drop k xs))"
proof (induction xs arbitrary: k)
  case Nil
  then show ?case by simp
next
  case (Cons x xs)
  then show ?case by (cases k) simp_all
qed

lemma gene_at_Marshal_body:
  assumes "k < length neu" and "- (2 ^ 31) \<le> neu ! k" and "neu ! k < 2 ^ 31"
  shows "gene_at (concat (map (\<lambda>gene. PutUint32 (gene_word gene)) neu)) k = neu ! k"
proof -
  have "drop (k * 4) (concat (map (\<lambda>gene. PutUint32 (gene_word gene)) neu))
        = concat (map (\<lambda>gene. PutUint32 (gene_word gene)) (drop k neu))"
    by (rule drop_concat_fixed) simp
  also have "drop k neu = neu ! k # drop (Suc k) neu"
    using assms(1) by (simp add: Cons_nth_drop_Suc)
  finally have "Uint32 (drop (k * 4) (concat (map (\<lambda>gene. PutUint32 (gene_word gene)) neu)))
        = Some (gene_word (neu ! k))"
    by (simp add: Uint32_PutUint32)
  then show ?thesis
    using assms(2,3) by (simp add: gene_at_def signed_of_gene_word)
qed

lemma unat_size_word: "n < 2 ^ 16 \<Longrightarrow> unat (of_nat n :: 16 word) = n"
  by (simp add: unat_of_nat)

lemma neuronFromBytes_Marshal:
  assumes "length neu < 2 ^ 16" and "\<forall>g \<in> set neu. - (2 ^ 31) \<le> g \<and> g < 2 ^ 31"
  shows "neuronFromBytes (Marshal neu @ rest) = Returned neu"
proof -
  let ?w = "of_nat (length neu) :: 16 word"
  let ?body = "concat (map (\<lambda>gene. PutUint32 (gene_word gene)) neu)"
  have w: "Uint16 (Marshal neu @ rest) = Some ?w"
    by (simp add: Marshal_def GetSize_def Uint16_PutUint16)
  have n: "unat ?w = length neu" using assms(1) by (rule unat_size_word)
  have len: "2 + 4 * unat ?w \<le> length (Marshal neu @ rest)"
    by (simp add: n length_Marshal)
  have d: "drop 2 (Marshal neu @ rest) = ?body @ rest"
    by (simp add: Marshal_def)
  have "map (gene_at (?body @ rest)) [0 ..< length neu] = neu"
  proof (rule nth_equalityI)
    show "length (map (gene_at (?body @ rest)) [0 ..< length neu]) = length neu" by simp
  next
    fix k assume "k < length (map (gene_at (?body @ rest)) [0 ..< length neu])"
    then have k: "k < length neu" by simp
    have "drop (k * 4) (?body @ rest) = drop (k * 4) ?body @ rest"
      using k by (simp add: length_concat comp_def sum_list_triv)
    also have "drop (k * 4) ?body = concat (map (\<lambda>gene. PutUint32 (gene_word gene)) (drop k neu))"
      by (rule drop_concat_fixed) simp
    also have "drop k neu = neu ! k # drop (Suc k) neu"
      using k by (simp add: Cons_nth_drop_Suc)
    finally have "Uint32 (drop (k * 4) (?body @ rest)) = Some (gene_word (neu ! k))"
      by (simp add: Uint32_PutUint32)
    moreover have "- (2 ^ 31) \<le> neu ! k \<and> neu ! k < 2 ^ 31"
      using assms(2) k by simp
    ultimately show "map (gene_at (?body @ rest)) [0 ..< length neu] ! k = neu ! k"
      using k by (simp add: gene_at_def signed_of_gene_word)
  qed
  moreover have "neuronFromBytes (Marshal neu @ rest)
      = Returned (map (gene_at (drop 2 (Marshal neu @ rest))) [0 ..< unat ?w])"
    by (rule neuronFromBytes_enough [OF w len])
  ultimately show ?thesis unfolding n d by (simp only:)
qed

lemma gene_at_append:
  "Suc k * 4 \<le> length body \<Longrightarrow> gene_at (body @ rest) k = gene_at body k"
proof -
  assume len: "Suc k * 4 \<le> length body"
  then have "Uint32 (drop (k * 4) (body @ rest)) = Uint32 (take 4 (drop (k * 4) (body @ rest)))"
    by (intro Uint32_take [symmetric]) simp
  also have "take 4 (drop (k * 4) (body @ rest)) = take 4 (drop (k * 4) body)"
    using len by simp
  also have "Uint32 (take 4 (drop (k * 4) body)) = Uint32 (drop (k * 4) body)"
    using len by (intro Uint32_take) simp
  finally show ?thesis by (simp add: gene_at_def)
qed

section \<open>Facts about Compute and the network\<close>

lemma Compute_loop_value:
  "index + length data \<le> length neu \<Longrightarrow>
   Compute_loop ops neu index data acc = Returned (weighted_sum ops acc data (drop index neu))"
proof (induction data arbitrary: index acc)
  case Nil
  then show ?case by (simp add: weighted_sum_def)
next
  case (Cons v data)
  then have idx: "index < length neu" by simp
  then have d: "drop index neu = neu ! index # drop (Suc index) neu"
    by (simp add: Cons_nth_drop_Suc)
  have "Compute_loop ops neu (Suc index) data (f_add ops acc (f_mul ops v (f_of_int ops (neu ! index))))
        = Returned (weighted_sum ops (f_add ops acc (f_mul ops v (f_of_int ops (neu ! index)))) data
                      (drop (Suc index) neu))"
    using Cons.prems by (intro Cons.IH) simp
  then show ?case using idx by (simp add: GetGene_def d weighted_sum_def)
qed

lemma Compute_value:
  "length data = GetSize neu \<Longrightarrow>
   Compute ops neu data = Returned (threshold ops (weighted_sum ops (f_zero ops) data neu))"
  using Compute_loop_value [of 0 data neu ops "f_zero ops"]
  by (simp add: Compute_def GetSize_def threshold_def)

lemma Compute_arity: "length data \<noteq> GetSize neu \<Longrightarrow> Compute ops neu data = Panicked"
  by (simp add: Compute_def)

lemma usort_props: "distinct (usort xs)" "set (usort xs) = set xs" "sorted (usort xs)"
  by (simp_all add: usort_def)

lemma first_mismatch_None:
  "first_mismatch i ns expected = None \<longleftrightarrow> (\<forall>n \<in> set ns. GetSize n = expected)"
  by (induction ns arbitrary: i) auto

lemma NewNeuralNet_Returned:
  assumes "NewNeuralNet sensors0 actions0 front back = Returned net"
  shows "net = \<lparr>actions = usort actions0, frontNeuronSet = front, backNeuronSet = back,
                 sensors = usort sensors0\<rparr>"
    and "well_formed net"
proof -
  from assms have
    a: "usort sensors0 \<noteq> []" and b: "usort actions0 \<noteq> []"
    and c: "length front = length (usort actions0)" and d: "length back = length (usort actions0)"
    and e: "first_mismatch 0 front (length (usort sensors0)) = None"
    and f: "first_mismatch 0 back (length (usort actions0)) = None"
    and net: "net = \<lparr>actions = usort actions0, frontNeuronSet = front, backNeuronSet = back,
                 sensors = usort sensors0\<rparr>"
    by (auto simp add: NewNeuralNet_def Let_def split: if_splits option.splits)
  show "net = \<lparr>actions = usort actions0, frontNeuronSet = front, backNeuronSet = back,
                 sensors = usort sensors0\<rparr>" by (rule net)
  show "well_formed net"
    using a b c d e f unfolding net well_formed_def first_mismatch_None
    by (simp add: usort_props)
qed

lemma checkInput_iff:
  assumes "distinct (sensors net)"
  shows "checkInput net incoming =
           (if fset (fmdom incoming) = set (sensors net) then None else Some IncomingMismatch)"
proof (cases "fset (fmdom incoming) = set (sensors net)")
  case True
  then have "fcard (fmdom incoming) = length (sensors net)"
    using assms by (simp add: fcard.rep_eq distinct_card)
  moreover have "fBall (fmdom incoming) (\<lambda>key. key \<in> set (sensors net))"
    using True by (auto intro!: fBallI)
  ultimately show ?thesis using True by (simp add: checkInput_def)
next
  case False
  have "\<not> (fcard (fmdom incoming) = length (sensors net)
           \<and> fBall (fmdom incoming) (\<lambda>key. key \<in> set (sensors net)))"
  proof
    assume h: "fcard (fmdom incoming) = length (sensors net)
           \<and> fBall (fmdom incoming) (\<lambda>key. key \<in> set (sensors net))"
    then have sub: "fset (fmdom incoming) \<subseteq> set (sensors net)"
      by (auto dest: fbspec)
    moreover have "card (fset (fmdom incoming)) = card (set (sensors net))"
      using h assms by (simp add: fcard.rep_eq distinct_card)
    ultimately have "fset (fmdom incoming) = set (sensors net)"
      by (intro card_subset_eq) simp_all
    with False show False by simp
  qed
  then show ?thesis using False by (auto simp add: checkInput_def)
qed

lemma front_loop_value:
  assumes "\<forall>n \<in> set ns. length input = GetSize n" and "i + length ns \<le> length middle"
  shows "front_loop ops input i ns middle =
           Returned (take i middle
                     @ map (\<lambda>n. threshold ops (weighted_sum ops (f_zero ops) input n)) ns
                     @ drop (i + length ns) middle)"
  using assms
proof (induction ns arbitrary: i middle)
  case Nil
  then show ?case by simp
next
  case (Cons n ns)
  let ?v = "threshold ops (weighted_sum ops (f_zero ops) input n)"
  have c: "Compute ops n input = Returned ?v"
    using Cons.prems(1) by (intro Compute_value) simp
  have i: "i < length middle" using Cons.prems(2) by simp
  have "front_loop ops input (Suc i) ns (middle[i := ?v]) =
          Returned (take (Suc i) (middle[i := ?v])
                    @ map (\<lambda>n. threshold ops (weighted_sum ops (f_zero ops) input n)) ns
                    @ drop (Suc i + length ns) (middle[i := ?v]))"
  proof (intro Cons.IH)
    show "\<forall>n \<in> set ns. length input = GetSize n" using Cons.prems(1) by auto
    show "Suc i + length ns \<le> length (middle[i := ?v])" using Cons.prems(2) by simp
  qed
  moreover have "take (Suc i) (middle[i := ?v]) = take i middle @ [?v]"
    using i by (simp add: take_Suc_conv_app_nth)
  moreover have "drop (Suc i + length ns) (middle[i := ?v]) = drop (i + length (n # ns)) middle"
    by simp
  ultimately show ?case using c i by simp
qed

lemma back_loop_value:
  assumes "\<forall>n \<in> set ns. length input = GetSize n" and "i + length ns \<le> length acts"
    and "distinct acts"
  shows "\<exists>res'. back_loop ops acts input i ns res = Returned res'
           \<and> (\<forall>k < length ns. fmlookup res' (acts ! (i + k))
                  = Some (0 < threshold ops (weighted_sum ops (f_zero ops) input (ns ! k))))
           \<and> (\<forall>j < i. fmlookup res' (acts ! j) = fmlookup res (acts ! j))
           \<and> fmdom res' = fmdom res |\<union>| fset_of_list (take (length ns) (drop i acts))"
  using assms(1,2)
proof (induction ns arbitrary: i res)
  case Nil
  then show ?case by simp
next
  case (Cons n ns)
  let ?v = "threshold ops (weighted_sum ops (f_zero ops) input n)"
  let ?res = "fmupd (acts ! i) (0 < ?v) res"
  have c: "Compute ops n input = Returned ?v"
    using Cons.prems(1) by (intro Compute_value) simp
  have i: "i < length acts" using Cons.prems(2) by simp
  obtain res' where r:
    "back_loop ops acts input (Suc i) ns ?res = Returned res'"
    "\<forall>k < length ns. fmlookup res' (acts ! (Suc i + k))
         = Some (0 < threshold ops (weighted_sum ops (f_zero ops) input (ns ! k)))"
    "\<forall>j < Suc i. fmlookup res' (acts ! j) = fmlookup ?res (acts ! j)"
    "fmdom res' = fmdom ?res |\<union>| fset_of_list (take (length ns) (drop (Suc i) acts))"
  proof -
    have "\<forall>n \<in> set ns. length input = GetSize n" using Cons.prems(1) by auto
    moreover have "Suc i + length ns \<le> length acts" using Cons.prems(2) by simp
    ultimately show ?thesis using Cons.IH [of "Suc i" ?res] that by blast
  qed
  have run: "back_loop ops acts input i (n # ns) res = Returned res'"
    using c i r(1) by simp
  have here: "fmlookup res' (acts ! i) = Some (0 < ?v)"
    using r(3) by simp
  have look: "\<forall>k < length (n # ns). fmlookup res' (acts ! (i + k))
         = Some (0 < threshold ops (weighted_sum ops (f_zero ops) input ((n # ns) ! k)))"
  proof (intro allI impI)
    fix k assume k: "k < length (n # ns)"
    show "fmlookup res' (acts ! (i + k))
         = Some (0 < threshold ops (weighted_sum ops (f_zero ops) input ((n # ns) ! k)))"
    proof (cases k)
      case 0
      then show ?thesis using here by simp
    next
      case (Suc k')
      then show ?thesis using r(2) k by simp
    qed
  qed
  have before: "\<forall>j < i. fmlookup res' (acts ! j) = fmlookup res (acts ! j)"
  proof (intro allI impI)
    fix j assume j: "j < i"
    then have "acts ! j \<noteq> acts ! i"
      using assms(3) i by (simp add: nth_eq_iff_index_eq)
    then show "fmlookup res' (acts ! j) = fmlookup res (acts ! j)"
      using r(3) j by simp
  qed
  have "drop i acts = acts ! i # drop (Suc i) acts"
    using i by (simp add: Cons_nth_drop_Suc)
  then have dom: "fmdom res' = fmdom res |\<union>| fset_of_list (take (length (n # ns)) (drop i acts))"
    using r(4) by auto
  from run look before dom show ?case by blast
qed

lemma incoming_at_present:
  "sensor |\<in>| fmdom incoming \<Longrightarrow> incoming_at ops incoming sensor = the (fmlookup incoming sensor)"
  by (auto simp add: incoming_at_def fmdom.rep_eq dom_def split: option.splits)

section \<open>Facts about Child\<close>

lemma int32_id: "- (2 ^ 31) \<le> x \<Longrightarrow> x < 2 ^ 31 \<Longrightarrow> int32 x = x"
  unfolding int32_def by (simp add: mod_pos_pos_trivial)

lemma wrap_int_id: "- (2 ^ 63) \<le> x \<Longrightarrow> x < 2 ^ 63 \<Longrightarrow> wrap_int x = x"
  unfolding wrap_int_def by (simp add: mod_pos_pos_trivial)

lemma wrap_int_wrap: "wrap_int (wrap_int x + y) = wrap_int (x + y)"
proof -
  have "(((x + 2 ^ 63) mod 2 ^ 64 - 2 ^ 63 + y) + 2 ^ 63) mod 2 ^ 64 = (x + y + 2 ^ 63) mod (2 ^ 64 :: int)"
    by (simp add: algebra_simps mod_simps)
  then show ?thesis by (simp add: wrap_int_def)
qed

lemma go_div_pos: "0 < a \<Longrightarrow> 0 < b \<Longrightarrow> go_div a b = a div b"
  by (simp add: go_div_def)

lemma length_draws [simp]: "length (fst (draws draw n g k)) = k"
proof (induction k arbitrary: g)
  case 0
  then show ?case by simp
next
  case (Suc k)
  obtain u g1 where d: "draw g n = (u, g1)" by (cases "draw g n")
  obtain us g2 where r: "draws draw n g1 k = (us, g2)" by (cases "draws draw n g1 k")
  have "length (fst (draws draw n g1 k)) = k" by (rule Suc)
  then show ?case using d r by simp
qed

lemma draws_range:
  assumes "\<forall>g n. 0 < n \<longrightarrow> 0 \<le> fst (draw g n) \<and> fst (draw g n) < n" and "0 < n"
  shows "\<forall>u \<in> set (fst (draws draw n g k)). 0 \<le> u \<and> u < n"
proof (induction k arbitrary: g)
  case 0
  then show ?case by simp
next
  case (Suc k)
  obtain u g1 where d: "draw g n = (u, g1)" by (cases "draw g n")
  then have "0 \<le> u \<and> u < n" using assms by (metis fst_conv)
  moreover obtain us g2 where r: "draws draw n g1 k = (us, g2)" by (cases "draws draw n g1 k")
  ultimately show ?case using d Suc [of g1] by simp
qed

lemma Child_loop_draws:
  assumes "0 < int32 dev"
  shows "Child_loop draw dev g neu
           = Returned (map2 (\<lambda>v u. wrap_int (wrap_int (v + u) - go_div dev 2)) neu
                         (fst (draws draw (int32 dev) g (length neu))),
                       snd (draws draw (int32 dev) g (length neu)))"
proof (induction neu arbitrary: g)
  case Nil
  then show ?case by simp
next
  case (Cons v neu)
  obtain u g1 where d: "draw g (int32 dev) = (u, g1)" by (cases "draw g (int32 dev)")
  obtain us g2 where r: "draws draw (int32 dev) g1 (length neu) = (us, g2)"
    by (cases "draws draw (int32 dev) g1 (length neu)")
  have "Child_loop draw dev g1 neu
           = Returned (map2 (\<lambda>v u. wrap_int (wrap_int (v + u) - go_div dev 2)) neu us, g2)"
    using Cons [of g1] r by simp
  then show ?case using assms d r by (simp add: Int31n_def)
qed

lemma Child_panics:
  "neu \<noteq> [] \<Longrightarrow> int32 dev \<le> 0 \<Longrightarrow> Child draw g neu dev = Panicked"
  by (cases neu) (simp_all add: Child_def Int31n_def)

section \<open>Facts about saving and loading\<close>

lemma char_of_byte_of_char [simp]: "char_of_byte (byte_of_char c) = c"
  by (simp add: byte_of_char_def char_of_byte_def unat_of_nat)

lemma of_char_eq_0_iff: "(of_char c :: nat) = 0 \<longleftrightarrow> c = CHR 0x00"
proof -
  have "(of_char c :: nat) = of_char (CHR 0x00) \<longleftrightarrow> c = CHR 0x00"
    by (rule of_char_eq_iff)
  then show ?thesis by simp
qed

lemma byte_of_char_eq_0_iff [simp]: "byte_of_char c = 0 \<longleftrightarrow> c = CHR 0x00"
proof -
  have "(of_char c :: nat) < 256" by simp
  then have "unat (of_nat (of_char c) :: byte) = of_char c"
    by (simp add: unat_of_nat)
  then have "(of_nat (of_char c) :: byte) = 0 \<longleftrightarrow> (of_char c :: nat) = 0"
    by (metis unat_eq_0)
  then show ?thesis by (simp add: byte_of_char_def of_char_eq_0_iff)
qed

lemma Read_enough: "length bs = n \<Longrightarrow> Read n (bs @ rest) = Returned (bs, rest)"
  by (auto simp add: Read_def)

lemma filled_full [simp]: "length bs = n \<Longrightarrow> filled n bs = bs"
  by (simp add: filled_def)

lemma length_count_field [simp]: "length (count_field n) = 4"
  by (simp add: count_field_def)

lemma Uint16_count_field_Some: "Uint16 (count_field n) = Some (of_nat n)"
  by (simp add: count_field_def Uint16_PutUint16)

lemma read_name_bytes:
  "CHR 0x00 \<notin> set name \<Longrightarrow>
   read_name (name_bytes name @ rest) str = Returned (str @ name, rest)"
  by (induction name arbitrary: str) (auto simp add: name_bytes_def)

lemma loadStrings_loop_names:
  "\<forall>name \<in> set names. CHR 0x00 \<notin> set name \<Longrightarrow>
   loadStrings_loop (length names) (concat (map name_bytes names) @ rest) acc
     = Returned (acc @ names, rest)"
proof (induction names arbitrary: acc)
  case Nil
  then show ?case by simp
next
  case (Cons name names)
  then have "read_name (name_bytes name @ concat (map name_bytes names) @ rest) []
             = Returned ([] @ name, concat (map name_bytes names) @ rest)"
    by (intro read_name_bytes) simp
  moreover have "loadStrings_loop (length names) (concat (map name_bytes names) @ rest) (acc @ [name])
             = Returned ((acc @ [name]) @ names, rest)"
    using Cons.prems by (intro Cons.IH) simp
  ultimately show ?case by simp
qed

lemma loadStrings_names:
  assumes "\<forall>name \<in> set names. CHR 0x00 \<notin> set name" and "length names < 2 ^ 16"
  shows "loadStrings (count_field (length names) @ concat (map name_bytes names) @ rest)
           = Returned (names, rest)"
proof -
  have "unat (of_nat (length names) :: 16 word) = length names"
    using assms(2) by (simp add: unat_of_nat)
  moreover have "Read 4 (count_field (length names) @ concat (map name_bytes names) @ rest)
      = Returned (count_field (length names), concat (map name_bytes names) @ rest)"
    by (rule Read_enough) simp
  ultimately show ?thesis
    using loadStrings_loop_names [OF assms(1), of rest "[]"]
    by (simp add: loadStrings_def Uint16_count_field_Some)
qed

lemma neuron_bytes_Marshal: "neuron_bytes neu = Marshal neu"
  by (simp add: neuron_bytes_def GetSize_def length_Marshal)

lemma readFile_Marshal:
  assumes "length neu < 2 ^ 16" and "\<forall>g \<in> set neu. - (2 ^ 31) \<le> g \<and> g < 2 ^ 31"
  shows "readFile (Marshal neu @ rest) = Returned (neu, rest)"
proof -
  let ?head = "PutUint16 (of_nat (length neu))"
  let ?body = "concat (map (\<lambda>gene. PutUint32 (gene_word gene)) neu)"
  have m: "Marshal neu = ?head @ ?body" by (simp add: Marshal_def GetSize_def)
  have r1: "Read 2 (?head @ ?body @ rest) = Returned (?head, ?body @ rest)"
    by (rule Read_enough) simp
  have w: "Uint16 ?head = Some (of_nat (length neu))"
    using Uint16_PutUint16 [of "of_nat (length neu)" "[]"] by simp
  have n: "unat (of_nat (length neu) :: 16 word) = length neu"
    using assms(1) by (simp add: unat_of_nat)
  have lb: "length ?body = 4 * length neu"
    by (simp add: length_concat comp_def sum_list_triv)
  have r2: "Read (4 * length neu) (?body @ rest) = Returned (?body, rest)"
    using lb by (intro Read_enough) simp
  have dec: "neuronFromBytes (?head @ ?body) = Returned neu"
    using neuronFromBytes_Marshal [OF assms, of "[]"] by (simp add: m)
  show ?thesis
    unfolding m by (simp add: readFile_def r1 w n r2 lb dec)
qed

lemma loadNeurons_loop_Marshal:
  "\<forall>neu \<in> set ns. length neu < 2 ^ 16 \<and> (\<forall>g \<in> set neu. - (2 ^ 31) \<le> g \<and> g < 2 ^ 31) \<Longrightarrow>
   loadNeurons_loop (length ns) (concat (map neuron_bytes ns) @ rest) acc = Returned (acc @ ns, rest)"
proof (induction ns arbitrary: acc)
  case Nil
  then show ?case by simp
next
  case (Cons neu ns)
  then have "readFile (Marshal neu @ concat (map neuron_bytes ns) @ rest)
             = Returned (neu, concat (map neuron_bytes ns) @ rest)"
    by (intro readFile_Marshal) simp_all
  moreover have "loadNeurons_loop (length ns) (concat (map neuron_bytes ns) @ rest) (acc @ [neu])
             = Returned ((acc @ [neu]) @ ns, rest)"
    using Cons.prems by (intro Cons.IH) simp
  ultimately show ?case by (simp add: neuron_bytes_Marshal [of neu])
qed

lemma loadNeurons_Marshal:
  assumes "\<forall>neu \<in> set ns. length neu < 2 ^ 16 \<and> (\<forall>g \<in> set neu. - (2 ^ 31) \<le> g \<and> g < 2 ^ 31)"
    and "length ns < 2 ^ 16"
  shows "loadNeurons (count_field (length ns) @ concat (map neuron_bytes ns) @ rest)
           = Returned (ns, rest)"
proof -
  have "unat (of_nat (length ns) :: 16 word) = length ns"
    using assms(2) by (simp add: unat_of_nat)
  moreover have "Read 4 (count_field (length ns) @ concat (map neuron_bytes ns) @ rest)
      = Returned (count_field (length ns), concat (map neuron_bytes ns) @ rest)"
    by (rule Read_enough) simp
  ultimately show ?thesis
    using loadNeurons_loop_Marshal [OF assms(1), of rest "[]"]
    by (simp add: loadNeurons_def Uint16_count_field_Some)
qed

lemma usort_id: "sorted xs \<Longrightarrow> distinct xs \<Longrightarrow> usort xs = xs"
  by (simp add: usort_def sort_key_id_if_sorted)

lemma NewNeuralNet_well_formed:
  assumes "well_formed net"
  shows "NewNeuralNet (sensors net) (actions net) (frontNeuronSet net) (backNeuronSet net)
           = Returned net"
proof -
  have s: "usort (sensors net) = sensors net" and a: "usort (actions net) = actions net"
    using assms by (simp_all add: well_formed_def usort_id)
  have f: "first_mismatch 0 (frontNeuronSet net) (length (sensors net)) = None"
    and b: "first_mismatch 0 (backNeuronSet net) (length (actions net)) = None"
    using assms by (simp_all add: well_formed_def first_mismatch_None)
  show ?thesis
    using assms by (simp add: NewNeuralNet_def s a f b well_formed_def)
qed

section \<open>Facts about the text form\<close>

declare chunks.simps [simp del]

lemma chunks_Nil [simp]: "chunks n [] = []"
  by (simp add: chunks.simps)

lemma chunks_step: "0 < n \<Longrightarrow> xs \<noteq> [] \<Longrightarrow> chunks n xs = take n xs # chunks n (drop n xs)"
  by (subst chunks.simps) simp

lemma bits_nat_snoc: "bits_nat (bs @ [b]) = 2 * bits_nat bs + (if b then 1 else 0)"
  by (simp add: bits_nat_def)

lemma length_nat_bits [simp]: "length (nat_bits k n) = k"
  by (induction k arbitrary: n) simp_all

lemma bits_nat_nat_bits: "bits_nat (nat_bits k n) = n mod 2 ^ k"
proof (induction k arbitrary: n)
  case 0
  then show ?case by (simp add: bits_nat_def)
next
  case (Suc k)
  have "n mod (2 * 2 ^ k) = 2 * (n div 2 mod 2 ^ k) + n mod 2"
    by (simp add: mod_mult2_eq)
  then show ?case
    by (simp add: bits_nat_snoc Suc.IH odd_iff_mod_2_eq_one)
qed

lemma nat_bits_bits_nat: "length bs = k \<Longrightarrow> nat_bits k (bits_nat bs) = bs"
proof (induction bs arbitrary: k rule: rev_induct)
  case Nil
  then show ?case by simp
next
  case (snoc b bs)
  then obtain k' where k: "k = Suc k'" and l: "length bs = k'" by (cases k) auto
  have "nat_bits k' (bits_nat bs) = bs" using l by (rule snoc.IH)
  then show ?case unfolding k by (simp add: bits_nat_snoc)
qed

lemma bits_nat_less: "bits_nat bs < 2 ^ length bs"
proof (induction bs rule: rev_induct)
  case Nil
  then show ?case by (simp add: bits_nat_def)
next
  case (snoc b bs)
  then show ?case by (simp add: bits_nat_snoc)
qed

lemma byte_of_bits: "(of_nat (bits_nat (nat_bits 8 (unat b))) :: byte) = b"
proof -
  have "unat b < 2 ^ 8" using unsigned_less [of b, where 'a = nat] by simp
  then show ?thesis by (simp add: bits_nat_nat_bits)
qed

lemma index_of_nth: "distinct xs \<Longrightarrow> n < length xs \<Longrightarrow> index_of (xs ! n) xs = Some n"
proof (induction xs arbitrary: n)
  case Nil
  then show ?case by simp
next
  case (Cons x xs)
  show ?case
  proof (cases n)
    case 0
    then show ?thesis by simp
  next
    case (Suc m)
    then have "xs ! m \<noteq> x" using Cons.prems by auto
    then show ?thesis using Suc Cons by simp
  qed
qed

lemma distinct_hex32: "distinct hex32"
  by (simp add: hex32_def)

lemma length_hex32: "length hex32 = 32"
  by (simp add: hex32_def)

lemma index_of_hex32: "n < 32 \<Longrightarrow> index_of (hex32 ! n) hex32 = Some n"
  by (simp add: index_of_nth distinct_hex32 length_hex32)

lemma no_newline_hex32: "n < 32 \<Longrightarrow> hex32 ! n \<noteq> CHR 0x0D \<and> hex32 ! n \<noteq> CHR 0x0A"
proof -
  assume "n < 32"
  then have "hex32 ! n \<in> set hex32" by (simp add: length_hex32)
  then show ?thesis by (auto simp add: hex32_def)
qed

lemma chunks_lengths:
  "0 < n \<Longrightarrow> g \<in> set (chunks n xs) \<Longrightarrow> 0 < length g \<and> length g \<le> n"
proof (induction n xs rule: chunks.induct)
  case (1 n xs)
  show ?case
  proof (cases "xs = []")
    case True
    then show ?thesis using "1.prems" by simp
  next
    case False
    then have c: "chunks n xs = take n xs # chunks n (drop n xs)"
      using "1.prems"(1) by (simp add: chunks_step)
    show ?thesis
    proof (cases "g = take n xs")
      case True
      then show ?thesis using False "1.prems"(1) by simp
    next
      case g: False
      then have "g \<in> set (chunks n (drop n xs))" using "1.prems"(2) c by simp
      then show ?thesis using "1.IH" False "1.prems"(1) by simp
    qed
  qed
qed

lemma concat_padded_chunks:
  "0 < n \<Longrightarrow>
   \<exists>pad. concat (map (\<lambda>g. g @ replicate (n - length g) z) (chunks n xs)) = xs @ pad
         \<and> length pad < n"
proof (induction n xs rule: chunks.induct)
  case (1 n xs)
  show ?case
  proof (cases "xs = []")
    case True
    then show ?thesis using "1.prems" by simp
  next
    case False
    then have c: "chunks n xs = take n xs # chunks n (drop n xs)"
      using "1.prems" by (simp add: chunks_step)
    show ?thesis
    proof (cases "n \<le> length xs")
      case True
      obtain pad where pad:
        "concat (map (\<lambda>g. g @ replicate (n - length g) z) (chunks n (drop n xs))) = drop n xs @ pad"
        "length pad < n"
        using "1.IH" False "1.prems" by auto
      have "concat (map (\<lambda>g. g @ replicate (n - length g) z) (chunks n xs))
            = take n xs @ drop n xs @ pad"
        using True pad(1) by (simp add: c)
      then show ?thesis using pad(2) by (intro exI [of _ pad]) simp
    next
      case short: False
      then have "drop n xs = []" by simp
      then have "concat (map (\<lambda>g. g @ replicate (n - length g) z) (chunks n xs))
            = xs @ replicate (n - length xs) z"
        using short by (simp add: c)
      moreover have "length (replicate (n - length xs) z) < n"
        using False "1.prems" by (cases xs) simp_all
      ultimately show ?thesis by blast
    qed
  qed
qed

lemma chunks_concat_fixed:
  "0 < n \<Longrightarrow> \<forall>x \<in> set xss. length x = n \<Longrightarrow> chunks n (concat xss @ rest) = xss @ chunks n rest"
proof (induction xss)
  case Nil
  then show ?case by simp
next
  case (Cons x xss)
  then have x: "length x = n" and ne: "x \<noteq> []" by auto
  have "chunks n (x @ concat xss @ rest) = take n (x @ concat xss @ rest)
          # chunks n (drop n (x @ concat xss @ rest))"
    using Cons.prems(1) ne by (intro chunks_step) simp_all
  then show ?case using Cons x by simp
qed

lemma length_concat_fixed:
  "\<forall>x \<in> set xs. length (f x) = n \<Longrightarrow> length (concat (map f xs)) = n * length xs"
  by (induction xs) simp_all

lemma valid_length:
  fixes n m p :: nat
  assumes "5 * n = 8 * m + p" and "p < 5"
  shows "n mod 8 \<notin> {1, 3, 6}"
proof -
  have "(5 * n) mod 8 = p" using assms by simp
  moreover have "(5 * n) mod 8 = (5 * (n mod 8)) mod 8" by (simp add: mod_mult_right_eq)
  ultimately have "(5 * (n mod 8)) mod 8 < 5" using assms(2) by simp
  then show ?thesis by auto
qed

lemma decoded_count:
  fixes n m p :: nat
  assumes "5 * n = 8 * m + p" and "p < 5"
  shows "5 * (n div 8) + last_group_bytes (n mod 8) = m"
proof -
  define q r where "q = n div 8" and "r = n mod 8"
  have n: "n = 8 * q + r" and r: "r < 8" by (simp_all add: q_def r_def)
  have "r \<notin> {1, 3, 6}" unfolding r_def using assms by (rule valid_length)
  then have "r = 0 \<or> r = 2 \<or> r = 4 \<or> r = 5 \<or> r = 7" using r by auto
  then have "8 * last_group_bytes r \<le> 5 * r \<and> 5 * r < 8 * last_group_bytes r + 8"
    by (auto simp add: last_group_bytes_def)
  moreover have "40 * q + 5 * r = 8 * m + p" using assms(1) n by simp
  ultimately have "5 * q + last_group_bytes r = m" using assms(2) by arith
  then show ?thesis by (simp add: q_def r_def)
qed

lemma space_length_0:
  assumes "\<forall>w \<in> set ws. w \<noteq> [] \<and> (s = [] \<or> hd w \<noteq> hd s)"
  shows "space_length ws s = 0"
proof -
  have "take (length w) s \<noteq> w" if "w \<in> set ws" for w
  proof (cases s)
    case Nil
    then show ?thesis using assms that by auto
  next
    case (Cons c cs)
    have "w \<noteq> []" using assms that by blast
    then obtain a as where w: "w = a # as" by (cases w) auto
    have "hd w \<noteq> hd s" using assms that Cons by blast
    then have "a \<noteq> c" using w Cons by simp
    then show ?thesis using w Cons by simp
  qed
  then have "find (\<lambda>w. take (length w) s = w) ws = None"
    by (simp add: find_None_iff)
  then show ?thesis by (simp add: space_length_def)
qed

lemma trim_id:
  "\<forall>w \<in> set ws. w \<noteq> [] \<and> (s = [] \<or> hd w \<noteq> hd s) \<Longrightarrow> trim ws s = s"
  by (subst trim.simps) (simp add: space_length_0)

lemma white_space_heads: "\<forall>w \<in> set white_space. w \<noteq> [] \<and> hd w \<notin> set hex32"
  by (simp add: white_space_def hex32_def)

lemma white_space_lasts: "\<forall>w \<in> set (map rev white_space). w \<noteq> [] \<and> hd w \<notin> set hex32"
  by (simp add: white_space_def hex32_def)

lemma TrimSpace_id:
  assumes "set s \<subseteq> set hex32"
  shows "TrimSpace s = s"
proof -
  have "s = [] \<or> hd s \<in> set hex32" using assms by (cases s) auto
  then have "trim white_space s = s"
    using white_space_heads by (intro trim_id) auto
  moreover have "rev s = [] \<or> hd (rev s) \<in> set hex32"
    using assms by (cases s rule: rev_cases) auto
  then have "trim (map rev white_space) (rev s) = rev s"
    using white_space_lasts by (intro trim_id) auto
  ultimately show ?thesis by (simp add: TrimSpace_def)
qed

lemma EncodeToString_chars:
  "c \<in> set (EncodeToString src) \<Longrightarrow> \<exists>n < 32. c = hex32 ! n"
proof -
  assume "c \<in> set (EncodeToString src)"
  then obtain g where g: "g \<in> set (chunks 5 (concat (map (\<lambda>b. nat_bits 8 (unat b)) src)))"
    and c: "c = hex32 ! bits_nat (g @ replicate (5 - length g) False)"
    by (auto simp add: EncodeToString_def)
  have "length g \<le> 5" using chunks_lengths [OF _ g] by simp
  then have "length (g @ replicate (5 - length g) False) = 5" by simp
  then have "bits_nat (g @ replicate (5 - length g) False) < 2 ^ 5"
    using bits_nat_less [of "g @ replicate (5 - length g) False"] by simp
  then show ?thesis using c by auto
qed

lemma TrimSpace_EncodeToString: "TrimSpace (EncodeToString src) = EncodeToString src"
proof (rule TrimSpace_id, rule subsetI)
  fix c assume "c \<in> set (EncodeToString src)"
  then obtain n where "n < 32" "c = hex32 ! n" using EncodeToString_chars by blast
  then show "c \<in> set hex32" by (simp add: length_hex32)
qed

lemma DecodeString_EncodeToString: "DecodeString (EncodeToString src) = Returned src"
proof -
  let ?bits = "\<lambda>b :: byte. nat_bits 8 (unat b)"
  let ?B = "concat (map ?bits src)"
  let ?pad = "\<lambda>g. g @ replicate (5 - length g) False"
  let ?s = "EncodeToString src"
  have chars: "\<forall>c \<in> set ?s. \<exists>n < 32. c = hex32 ! n"
    using EncodeToString_chars by blast
  have keep: "filter (\<lambda>c. c \<noteq> CHR 0x0D \<and> c \<noteq> CHR 0x0A) ?s = ?s"
  proof (rule filter_True, rule ballI)
    fix c assume "c \<in> set ?s"
    then obtain n where "n < 32" "c = hex32 ! n" using chars by blast
    then show "c \<noteq> CHR 0x0D \<and> c \<noteq> CHR 0x0A" using no_newline_hex32 [of n] by simp
  qed
  have known: "\<not> (\<exists>c \<in> set ?s. index_of c hex32 = None)"
  proof
    assume "\<exists>c \<in> set ?s. index_of c hex32 = None"
    then obtain c where c: "c \<in> set ?s" "index_of c hex32 = None" by blast
    then obtain n where "n < 32" "c = hex32 ! n" using chars by blast
    then show False using c(2) index_of_hex32 [of n] by simp
  qed
  have group: "nat_bits 5 (the (index_of (hex32 ! bits_nat (?pad g)) hex32)) = ?pad g"
    if "g \<in> set (chunks 5 ?B)" for g
  proof -
    have "length g \<le> 5" using chunks_lengths [OF _ that] by simp
    then have five: "length (?pad g) = 5" by simp
    then have "bits_nat (?pad g) < 32" using bits_nat_less [of "?pad g"] by simp
    then have "index_of (hex32 ! bits_nat (?pad g)) hex32 = Some (bits_nat (?pad g))"
      by (rule index_of_hex32)
    then show ?thesis using five by (simp add: nat_bits_bits_nat)
  qed
  have "concat (map (\<lambda>c. nat_bits 5 (the (index_of c hex32))) ?s)
        = concat (map ?pad (chunks 5 ?B))"
    unfolding EncodeToString_def map_map comp_def
    by (intro arg_cong [where f = concat] map_cong refl group)
  moreover obtain pad where pad: "concat (map ?pad (chunks 5 ?B)) = ?B @ pad" "length pad < 5"
    using concat_padded_chunks [of 5 False ?B] by auto
  ultimately have bits: "concat (map (\<lambda>c. nat_bits 5 (the (index_of c hex32))) ?s) = ?B @ pad"
    by simp
  have lenB: "length ?B = 8 * length src"
    by (simp add: length_concat comp_def sum_list_triv)
  have "length (concat (map ?pad (chunks 5 ?B))) = 5 * length (chunks 5 ?B)"
  proof -
    have "\<forall>g \<in> set (chunks 5 ?B). length (?pad g) = 5"
      using chunks_lengths [of 5 _ ?B] by fastforce
    then show ?thesis by (rule length_concat_fixed)
  qed
  then have len: "5 * length ?s = 8 * length src + length pad"
    using pad(1) lenB by (simp add: EncodeToString_def)
  then have count: "5 * (length ?s div 8) + last_group_bytes (length ?s mod 8) = length src"
    using pad(2) by (rule decoded_count)
  have "chunks 8 (?B @ pad) = map ?bits src @ chunks 8 pad"
    by (rule chunks_concat_fixed) simp_all
  then have "take (length src) (chunks 8 (?B @ pad)) = map ?bits src" by simp
  then have "map (\<lambda>g. of_nat (bits_nat g))
              (take (5 * (length ?s div 8) + last_group_bytes (length ?s mod 8))
                 (chunks 8 (?B @ pad))) = src"
    by (simp add: count comp_def byte_of_bits)
  then show ?thesis
    using known by (simp add: DecodeString_def keep bits Let_def)
qed

lemma String_Marshal: "String neu = EncodeToString (Marshal neu)"
  by (simp add: String_def GetSize_def length_Marshal)

section \<open>Trailing bytes\<close>

text \<open>
  C10. A byte sequence longer than \<open>2 + 4 * declared_size\<close> decodes successfully, to a
  neuron of the declared size, and to the same neuron as its first
  \<open>2 + 4 * declared_size\<close> bytes alone: whatever follows them is never read.
\<close>

theorem neuronFromBytes_ignores_trailing:
  assumes "2 + 4 * declared_size input < length input"
  shows "\<exists>neu. neuronFromBytes input = Returned neu
               \<and> GetSize neu = declared_size input
               \<and> neuronFromBytes (take (2 + 4 * declared_size input) input) = Returned neu"
proof -
  let ?n = "declared_size input"
  let ?pre = "take (2 + 4 * ?n) input"
  from assms have two: "2 \<le> length input" by simp
  then obtain w where w: "Uint16 input = Some w"
    by (auto simp add: Uint16_def)
  then have n: "unat w = ?n" by (simp add: declared_size_def)
  have wp: "Uint16 ?pre = Some w"
    by (simp only: Uint16_take [OF two] w)
  have whole: "neuronFromBytes input = Returned (map (gene_at (drop 2 input)) [0 ..< ?n])"
    using neuronFromBytes_enough [OF w] assms by (simp add: n)
  have pre: "neuronFromBytes ?pre = Returned (map (gene_at (drop 2 ?pre)) [0 ..< ?n])"
    using neuronFromBytes_enough [OF wp] assms by (simp add: n)
  have "drop 2 ?pre = take (4 * ?n) (drop 2 input)"
    by (simp add: drop_take)
  moreover have "drop (2 + 4 * ?n) input = drop (4 * ?n) (drop 2 input)"
    by (simp add: add.commute)
  ultimately have split: "drop 2 input = drop 2 ?pre @ drop (2 + 4 * ?n) input"
    by (simp only: append_take_drop_id)
  have "map (gene_at (drop 2 input)) [0 ..< ?n] = map (gene_at (drop 2 ?pre)) [0 ..< ?n]"
  proof (rule map_cong [OF refl])
    fix k assume "k \<in> set [0 ..< ?n]"
    then have "Suc k * 4 \<le> length (drop 2 ?pre)" using assms by simp
    then show "gene_at (drop 2 input) k = gene_at (drop 2 ?pre) k"
      by (subst split) (rule gene_at_append)
  qed
  with whole pre show ?thesis by (simp add: GetSize_def)
qed

theorem neuronFromBytes_ignores_trailing_witness:
  "2 + 4 * declared_size [0, 1, 0, 0, 0, 7, 9, 9 :: byte] < length [0, 1, 0, 0, 0, 7, 9, 9 :: byte]
   \<and> neuronFromBytes [0, 1, 0, 0, 0, 7, 9, 9] = Returned [7]
   \<and> neuronFromBytes (take (2 + 4 * declared_size [0, 1, 0, 0, 0, 7, 9, 9 :: byte]) [0, 1, 0, 0, 0, 7, 9, 9])
       = Returned [7]"
proof -
  have ds: "declared_size [0, 1, 0, 0, 0, 7, 9, 9] = 1"
    by (simp add: declared_size_def Uint16_def)
  have seven: "neuronFromBytes [0, 1, 0, 0, 0, 7, 9, 9] = Returned [7]"
    by (simp add: neuronFromBytes_def Uint16_def Uint32_def processBytes_def signed_of_def)
  show ?thesis
    using neuronFromBytes_ignores_trailing [of "[0, 1, 0, 0, 0, 7, 9, 9]"] ds seven by simp
qed

section \<open>The wire format\<close>

lemma unat_byte_of_nat: "unat (of_nat y :: byte) = y mod 256"
  by (simp add: unat_of_nat)

lemma be_value_2: "x < 65536 \<Longrightarrow> be_value (be_bytes 2 x) = x"
proof -
  assume "x < 65536"
  then have "x div 256 < 256" by simp
  then have "x div 256 mod 256 = x div 256" by simp
  then show ?thesis
    by (simp add: be_value_def be_bytes_2 unat_byte_of_nat)
qed

lemma be_value_4: "x < 4294967296 \<Longrightarrow> be_value (be_bytes 4 x) = x"
proof -
  assume x: "x < 4294967296"
  define y1 where "y1 = x div 256"
  define y2 where "y2 = y1 div 256"
  define y3 where "y3 = y2 div 256"
  have d2: "x div 65536 = y2" unfolding y2_def y1_def by (simp add: div_mult2_eq [symmetric])
  have d3: "x div 16777216 = y3"
    unfolding y3_def y2_def y1_def by (simp add: div_mult2_eq [symmetric])
  have "y3 < 256" using x unfolding d3 [symmetric] by simp
  then have m3: "y3 mod 256 = y3" by simp
  have e1: "x = y1 * 256 + x mod 256" unfolding y1_def by simp
  have e2: "y1 = y2 * 256 + y1 mod 256" unfolding y2_def by simp
  have e3: "y2 = y3 * 256 + y2 mod 256" unfolding y3_def by simp
  have "be_value (be_bytes 4 x) = ((y3 * 256 + y2 mod 256) * 256 + y1 mod 256) * 256 + x mod 256"
    by (simp add: be_value_def be_bytes_4 unat_byte_of_nat d2 d3 m3 y1_def [symmetric])
  also have "\<dots> = x" using e1 e2 e3 by simp
  finally show ?thesis .
qed

lemma length_be_bytes [simp]: "length (be_bytes k x) = k"
  by (simp add: be_bytes_def)

lemma twos_complement32_less: "twos_complement32 g < 4294967296"
  by (simp add: twos_complement32_def nat_less_iff)

lemma gene_group_Marshal:
  assumes "k < length neu"
  shows "take 4 (drop (2 + 4 * k) (Marshal neu)) = be_bytes 4 (twos_complement32 (neu ! k))"
proof -
  let ?f = "\<lambda>gene. PutUint32 (gene_word gene)"
  have "drop (2 + 4 * k) (Marshal neu) = drop (k * 4) (concat (map ?f neu))"
    by (simp add: Marshal_def mult.commute)
  also have "\<dots> = concat (map ?f (drop k neu))"
    by (rule drop_concat_fixed) simp
  also have "drop k neu = neu ! k # drop (Suc k) neu"
    using assms by (simp add: Cons_nth_drop_Suc)
  finally show ?thesis by (simp add: PutUint32_be)
qed

text \<open>
  C2. With fewer than \<open>2 ^ 16\<close> genes, \<^verbatim>\<open>Marshal\<close> sends exactly
  \<open>2 + 4 * size\<close> bytes, and they are the bytes the specification words: two bytes that
  read back, big-endian, as the gene count, then for the \<open>k\<close>-th gene four bytes that
  read back as its two's complement in 32 bits. The genes \<open>[0, 256]\<close> give
  \<open>00 02 00 00 00 00 00 00 01 00\<close>.
\<close>

theorem Marshal_wire_format:
  "GetSize neu < 2 ^ 16 \<Longrightarrow>
     length (Marshal neu) = 2 + 4 * GetSize neu
   \<and> Marshal neu = spec_wire neu
   \<and> be_value (take 2 (Marshal neu)) = GetSize neu
   \<and> (\<forall>k < GetSize neu.
        be_value (take 4 (drop (2 + 4 * k) (Marshal neu))) = twos_complement32 (neu ! k))
   \<and> Marshal [0, 256] = [0x00, 0x02, 0x00, 0x00, 0x00, 0x00, 0x00, 0x00, 0x01, 0x00]"
proof -
  assume small: "GetSize neu < 2 ^ 16"
  have "take 2 (Marshal neu) = be_bytes 2 (length neu)"
    by (simp add: Marshal_def GetSize_def PutUint16_be)
  then have count: "be_value (take 2 (Marshal neu)) = GetSize neu"
    using small by (simp add: GetSize_def be_value_2)
  have genes: "\<forall>k < GetSize neu.
      be_value (take 4 (drop (2 + 4 * k) (Marshal neu))) = twos_complement32 (neu ! k)"
  proof (intro allI impI)
    fix k assume "k < GetSize neu"
    then have "take 4 (drop (2 + 4 * k) (Marshal neu)) = be_bytes 4 (twos_complement32 (neu ! k))"
      unfolding GetSize_def by (rule gene_group_Marshal)
    then show "be_value (take 4 (drop (2 + 4 * k) (Marshal neu))) = twos_complement32 (neu ! k)"
      by (simp only: be_value_4 [OF twos_complement32_less])
  qed
  have example: "Marshal [0, 256] = [0x00, 0x02, 0x00, 0x00, 0x00, 0x00, 0x00, 0x00, 0x01, 0x00]"
    by (simp add: Marshal_def GetSize_def PutUint16_def PutUint32_def gene_word_def)
  have len: "length (Marshal neu) = 2 + 4 * GetSize neu"
    by (simp add: length_Marshal GetSize_def)
  from len Marshal_spec_wire [of neu] count genes example show ?thesis
    by (intro conjI)
qed

theorem Marshal_wire_format_witness:
  "GetSize [-1, 1] < 2 ^ 16
   \<and> length (Marshal [-1, 1]) = 10
   \<and> spec_wire [-1, 1] = [0x00, 0x02, 0xff, 0xff, 0xff, 0xff, 0x00, 0x00, 0x00, 0x01]"
proof -
  have small: "GetSize [-1, 1] < 2 ^ 16" by (simp add: GetSize_def)
  have bytes: "Marshal [-1, 1] = [0x00, 0x02, 0xff, 0xff, 0xff, 0xff, 0x00, 0x00, 0x00, 0x01]"
    by (simp add: Marshal_def GetSize_def PutUint16_def PutUint32_def gene_word_def)
  from Marshal_wire_format [OF small]
  have len: "length (Marshal [-1, 1]) = 2 + 4 * GetSize [-1, 1]"
    and wire: "Marshal [-1, 1] = spec_wire [-1, 1]"
    by blast+
  have "length (Marshal [-1, 1]) = 10" using len by (simp add: GetSize_def)
  moreover have "spec_wire [-1, 1] = [0x00, 0x02, 0xff, 0xff, 0xff, 0xff, 0x00, 0x00, 0x00, 0x01]"
    using wire bytes by (simp only:)
  ultimately show ?thesis using small by (intro conjI)
qed

section \<open>Arity\<close>

text \<open>
  C9. \<^verbatim>\<open>Compute\<close> called with a number of parameters other than the neuron's size
  panics: it neither pads nor truncates the parameters, and it returns no value.
\<close>

theorem Compute_wrong_arity:
  "length data \<noteq> GetSize neu \<Longrightarrow> Compute ops neu data = Panicked"
  by (simp add: Compute_def)

theorem Compute_wrong_arity_witness:
  "length [0, 0, 0 :: rat] \<noteq> GetSize [1, 2]
   \<and> Compute exact_ops [1, 2] [0, 0, 0] = Panicked
   \<and> length [0 :: rat] \<noteq> GetSize [1, 2]
   \<and> Compute exact_ops [1, 2] [0] = Panicked"
  using Compute_wrong_arity [of "[0, 0, 0 :: rat]" "[1, 2]" exact_ops]
    Compute_wrong_arity [of "[0 :: rat]" "[1, 2]" exact_ops]
  by (simp add: GetSize_def)

section \<open>The forward pass of the network\<close>

text \<open>
  C4. For a network returned by \<^verbatim>\<open>NewNeuralNet\<close>, \<^verbatim>\<open>Compute\<close> returns the
  validation error exactly when the keys of the incoming map are not the sensor set.
  Otherwise it returns a map on the actions: with \<open>middle\<close> the results of the front
  neurons on the incoming values read in sensor order, the \<open>i\<close>-th action is mapped
  to whether the \<open>i\<close>-th back neuron computes a positive value on \<open>middle\<close>.
\<close>

theorem net_Compute_valid_net:
  assumes "NewNeuralNet sensors0 actions0 front back = Returned net"
  shows "(net_Compute ops net incoming = Failed IncomingMismatch
            \<longleftrightarrow> fset (fmdom incoming) \<noteq> set (sensors net))
       \<and> (fset (fmdom incoming) = set (sensors net) \<longrightarrow>
            (\<exists>middle res.
                length middle = length (actions net)
              \<and> (\<forall>i < length (actions net).
                    Compute ops (frontNeuronSet net ! i)
                      (map (\<lambda>sensor. the (fmlookup incoming sensor)) (sensors net))
                    = Returned (middle ! i))
              \<and> net_Compute ops net incoming = Returned res
              \<and> fset (fmdom res) = set (actions net)
              \<and> (\<forall>i < length (actions net).
                    \<exists>v. Compute ops (backNeuronSet net ! i) (map (f_of_int ops) middle) = Returned v
                      \<and> fmlookup res (actions net ! i) = Some (0 < v))))"
proof -
  have wf: "well_formed net" using assms by (rule NewNeuralNet_Returned(2))
  then have ds: "distinct (sensors net)" and da: "distinct (actions net)"
    and lf: "length (frontNeuronSet net) = length (actions net)"
    and lb: "length (backNeuronSet net) = length (actions net)"
    and sf: "\<forall>n \<in> set (frontNeuronSet net). GetSize n = length (sensors net)"
    and sb: "\<forall>n \<in> set (backNeuronSet net). GetSize n = length (actions net)"
    by (simp_all add: well_formed_def)
  note chk = checkInput_iff [OF ds, of incoming]
  have wrong: "fset (fmdom incoming) \<noteq> set (sensors net)
      \<Longrightarrow> net_Compute ops net incoming = Failed IncomingMismatch"
    by (simp add: net_Compute_def chk)
  have right: "\<exists>middle res.
                length middle = length (actions net)
              \<and> (\<forall>i < length (actions net).
                    Compute ops (frontNeuronSet net ! i)
                      (map (\<lambda>sensor. the (fmlookup incoming sensor)) (sensors net))
                    = Returned (middle ! i))
              \<and> net_Compute ops net incoming = Returned res
              \<and> fset (fmdom res) = set (actions net)
              \<and> (\<forall>i < length (actions net).
                    \<exists>v. Compute ops (backNeuronSet net ! i) (map (f_of_int ops) middle) = Returned v
                      \<and> fmlookup res (actions net ! i) = Some (0 < v))"
    if same: "fset (fmdom incoming) = set (sensors net)"
  proof -
    let ?input = "map (\<lambda>sensor. the (fmlookup incoming sensor)) (sensors net)"
    let ?val = "\<lambda>data n. threshold ops (weighted_sum ops (f_zero ops) data n)"
    let ?middle = "map (?val ?input) (frontNeuronSet net)"
    have inp: "map (incoming_at ops incoming) (sensors net) = ?input"
      using same by (intro map_cong [OF refl] incoming_at_present) simp
    have fl: "front_loop ops ?input 0 (frontNeuronSet net) (replicate (length (actions net)) 0)
              = Returned ?middle"
      using front_loop_value [of "frontNeuronSet net" ?input 0 "replicate (length (actions net)) 0" ops]
        sf lf by simp
    let ?minput = "map (f_of_int ops) ?middle"
    obtain res where res:
      "back_loop ops (actions net) ?minput 0 (backNeuronSet net) fmempty = Returned res"
      "\<forall>k < length (backNeuronSet net). fmlookup res (actions net ! (0 + k))
           = Some (0 < ?val ?minput (backNeuronSet net ! k))"
      "fmdom res = fmdom fmempty |\<union>| fset_of_list (take (length (backNeuronSet net)) (drop 0 (actions net)))"
      using back_loop_value [of "backNeuronSet net" ?minput 0 "actions net" ops fmempty] sb lb lf da
      by auto
    have run: "net_Compute ops net incoming = Returned res"
      using same res(1) by (simp add: net_Compute_def chk inp fl)
    have fronts: "\<forall>i < length (actions net).
        Compute ops (frontNeuronSet net ! i) ?input = Returned (?middle ! i)"
      using sf lf by (simp add: Compute_value)
    have backs: "\<forall>i < length (actions net).
        \<exists>v. Compute ops (backNeuronSet net ! i) ?minput = Returned v
          \<and> fmlookup res (actions net ! i) = Some (0 < v)"
      using sb lb lf res(2) by (simp add: Compute_value)
    have dom: "fset (fmdom res) = set (actions net)"
      using res(3) lb by (simp add: fset_of_list.rep_eq)
    have "length ?middle = length (actions net)" using lf by simp
    with fronts run dom backs show ?thesis by blast
  qed
  have "net_Compute ops net incoming = Failed IncomingMismatch
        \<longleftrightarrow> fset (fmdom incoming) \<noteq> set (sensors net)"
    using wrong right by auto
  with right show ?thesis by blast
qed

theorem net_Compute_valid_net_witness:
  "NewNeuralNet [''b'', ''a'', ''a''] [''x''] [[1, 2]] [[3]]
     = Returned \<lparr>actions = [''x''], frontNeuronSet = [[1, 2]], backNeuronSet = [[3]],
                  sensors = [''a'', ''b'']\<rparr>
   \<and> fset (fmdom (fmap_of_list [(''a'', 1 :: rat), (''b'', 2)])) = set [''a'', ''b'']
   \<and> (\<exists>res. net_Compute exact_ops
               \<lparr>actions = [''x''], frontNeuronSet = [[1, 2]], backNeuronSet = [[3]],
                  sensors = [''a'', ''b'']\<rparr>
               (fmap_of_list [(''a'', 1), (''b'', 2)]) = Returned res
            \<and> fset (fmdom res) = {''x''})"
proof -
  let ?net = "\<lparr>actions = [''x''], frontNeuronSet = [[1, 2]], backNeuronSet = [[3]],
                  sensors = [''a'', ''b'']\<rparr>"
  have built: "NewNeuralNet [''b'', ''a'', ''a''] [''x''] [[1, 2]] [[3]] = Returned ?net"
    by code_simp
  have keys: "fset (fmdom (fmap_of_list [(''a'', 1 :: rat), (''b'', 2)])) = set (sensors ?net)"
    by (auto simp add: fset_of_list.rep_eq)
  from net_Compute_valid_net [OF built, of exact_ops "fmap_of_list [(''a'', 1), (''b'', 2)]"] keys
  obtain res where "net_Compute exact_ops ?net (fmap_of_list [(''a'', 1), (''b'', 2)]) = Returned res"
    and "fset (fmdom res) = set (actions ?net)"
    by blast
  then have "\<exists>res. net_Compute exact_ops ?net (fmap_of_list [(''a'', 1), (''b'', 2)]) = Returned res
            \<and> fset (fmdom res) = {''x''}"
    by simp
  with built keys show ?thesis by simp
qed

section \<open>The offsets of a child\<close>

text \<open>
  C8 as stated, for every deviation above zero, fails: the deviation reaches
  \<^verbatim>\<open>rand.Int31n\<close> through \<^verbatim>\<open>int32(dev)\<close>, and at \<open>2 ^ 31\<close> that is
  negative, so \<^verbatim>\<open>Int31n\<close> panics and \<^verbatim>\<open>Child\<close> returns nothing.
\<close>

theorem Child_huge_deviation_panics:
  "(0 :: int) < 2147483648 \<and> Child counter_draw 7 [0, 5] 2147483648 = Panicked"
  by (simp add: Child_def Int31n_def int32_def)

text \<open>
  C8, amended. For a deviation above zero and below \<open>2 ^ 31\<close>, and a generator that
  keeps the contract of \<^verbatim>\<open>Int31n\<close>, \<^verbatim>\<open>Child\<close> returns a neuron of the same
  size and leaves the generator advanced by one draw for every gene. The \<open>i\<close>-th gene
  of the child is the \<open>i\<close>-th gene of the parent plus the offset \<open>u - dev div 2\<close>,
  where \<open>u\<close> is the \<open>i\<close>-th of these successive draws below \<open>dev\<close>; so
  \<open>0 \<le> u < dev\<close> and the offset lies between \<open>- (dev div 2)\<close> and
  \<open>dev - 1 - dev div 2\<close>. The sum is Go's: it wraps around at 64 bits and is exact
  whenever it fits.
\<close>

theorem Child_offsets:
  assumes "\<forall>g n. 0 < n \<longrightarrow> 0 \<le> fst (draw g n) \<and> fst (draw g n) < n"
    and "0 < dev" and "dev < 2 ^ 31"
  shows "\<exists>child.
           Child draw g neu dev = Returned (child, snd (draws draw dev g (GetSize neu)))
         \<and> GetSize child = GetSize neu
         \<and> (\<forall>i < GetSize neu.
               0 \<le> fst (draws draw dev g (GetSize neu)) ! i
             \<and> fst (draws draw dev g (GetSize neu)) ! i < dev
             \<and> - (dev div 2) \<le> fst (draws draw dev g (GetSize neu)) ! i - dev div 2
             \<and> fst (draws draw dev g (GetSize neu)) ! i - dev div 2 \<le> dev - 1 - dev div 2
             \<and> child ! i
                 = wrap_int (neu ! i + (fst (draws draw dev g (GetSize neu)) ! i - dev div 2))
             \<and> (- (2 ^ 63) \<le> neu ! i + (fst (draws draw dev g (GetSize neu)) ! i - dev div 2)
                  \<and> neu ! i + (fst (draws draw dev g (GetSize neu)) ! i - dev div 2) < 2 ^ 63
                  \<longrightarrow> child ! i
                       = neu ! i + (fst (draws draw dev g (GetSize neu)) ! i - dev div 2)))"
proof -
  define us where "us = fst (draws draw dev g (GetSize neu))"
  have d32: "int32 dev = dev" using assms(2,3) by (intro int32_id) simp_all
  have half: "go_div dev 2 = dev div 2" using assms(2) by (simp add: go_div_pos)
  have len: "length us = length neu" by (simp add: us_def GetSize_def)
  have range: "\<forall>u \<in> set us. 0 \<le> u \<and> u < dev"
    unfolding us_def using assms(1,2) by (rule draws_range)
  let ?child = "map2 (\<lambda>v u. wrap_int (wrap_int (v + u) - go_div dev 2)) neu us"
  have run: "Child draw g neu dev = Returned (?child, snd (draws draw dev g (GetSize neu)))"
    using Child_loop_draws [of dev draw g neu] assms(2)
    by (simp add: Child_def d32 us_def GetSize_def)
  have genes: "0 \<le> us ! i \<and> us ! i < dev
             \<and> - (dev div 2) \<le> us ! i - dev div 2
             \<and> us ! i - dev div 2 \<le> dev - 1 - dev div 2
             \<and> ?child ! i = wrap_int (neu ! i + (us ! i - dev div 2))
             \<and> (- (2 ^ 63) \<le> neu ! i + (us ! i - dev div 2)
                  \<and> neu ! i + (us ! i - dev div 2) < 2 ^ 63
                  \<longrightarrow> ?child ! i = neu ! i + (us ! i - dev div 2))"
    if i: "i < GetSize neu" for i
  proof -
    have iu: "i < length us" and il: "i < length neu" using i len by (simp_all add: GetSize_def)
    then have u: "0 \<le> us ! i \<and> us ! i < dev" using range by simp
    have "?child ! i = wrap_int (wrap_int (neu ! i + us ! i) + (- (dev div 2)))"
      using iu il by (simp add: half)
    also have "\<dots> = wrap_int (neu ! i + us ! i + (- (dev div 2)))"
      by (rule wrap_int_wrap)
    finally have c: "?child ! i = wrap_int (neu ! i + (us ! i - dev div 2))"
      by (simp add: algebra_simps)
    show ?thesis using u c by (simp add: wrap_int_id)
  qed
  have "GetSize ?child = GetSize neu" using len by (simp add: GetSize_def)
  with run genes show ?thesis unfolding us_def by blast
qed

theorem Child_offsets_witness:
  "(0 :: int) < 10 \<and> (10 :: int) < 2 ^ 31
   \<and> draws counter_draw 10 7 (GetSize [0, 5]) = ([7, 8], 9)
   \<and> Child counter_draw 7 [0, 5] 10 = Returned ([2, 8], 9)"
proof -
  have contract: "\<forall>g n. 0 < n \<longrightarrow> 0 \<le> fst (counter_draw g n) \<and> fst (counter_draw g n) < n"
    by (simp add: counter_draw_def)
  have ds: "draws counter_draw 10 7 (GetSize [0, 5]) = ([7, 8], 9)"
    by (simp add: GetSize_def counter_draw_def numeral_2_eq_2)
  from Child_offsets [OF contract, of 10 7 "[0, 5]"]
  obtain child where run: "Child counter_draw 7 [0, 5] 10 = Returned (child, 9)"
    and size: "GetSize child = GetSize [0, 5]"
    and genes: "\<forall>i < GetSize [0, 5]. child ! i = wrap_int ([0, 5] ! i + ([7, 8] ! i - 10 div 2))"
    unfolding ds by auto
  have "child ! 0 = 2" and "child ! 1 = 8"
    using genes by (simp_all add: GetSize_def wrap_int_def)
  moreover have "length child = 2" using size by (simp add: GetSize_def)
  ultimately have "child = [2, 8]"
    by (cases child; simp) (rename_tac a rest, case_tac rest; simp)
  with run ds show ?thesis by simp
qed

section \<open>A neuron made from a neuron\<close>

text \<open>
  C7. The \<^verbatim>\<open>Neuron\<close> arm of \<^verbatim>\<open>NewNeuron\<close> returns the reference it was given
  and leaves the store as it is: the result is the same backing array, not a copy. In the
  store that holds the genes \<open>[1, 2, 3]\<close> at address \<open>0\<close>, the neuron made from
  neuron \<open>0\<close> is again \<open>0\<close>, so an assignment through it is an assignment to the
  original. The \<^verbatim>\<open>[]int\<close> arm, for comparison, allocates a new array.
\<close>

theorem NewNeuron_of_Neuron_shares_storage:
  "NewNeuron_in_store one_neuron_store (OfNeuron 0) = Returned (0, one_neuron_store)
   \<and> contents one_neuron_store 0 = [1, 2, 3]
   \<and> contents (assign_gene one_neuron_store 0 0 9) 0 = [9, 2, 3]"
  by (simp add: NewNeuron_in_store_def one_neuron_store_def contents_def assign_gene_def)

lemma NewNeuron_of_ints_copies:
  "NewNeuron_in_store one_neuron_store (OfInts 0)
     = Returned (1, \<lparr>arrays = [0 \<mapsto> [1, 2, 3], 1 \<mapsto> [1, 2, 3]], fresh = 2\<rparr>)
   \<and> contents (assign_gene \<lparr>arrays = [0 \<mapsto> [1, 2, 3], 1 \<mapsto> [1, 2, 3]], fresh = 2\<rparr> 1 0 9) 0
       = [1, 2, 3]"
  by (simp add: NewNeuron_in_store_def one_neuron_store_def contents_def assign_gene_def)

section \<open>Loading what was saved\<close>

lemmas save_defs = Save_def Save_payload_def count_field_def name_bytes_def neuron_bytes_def
  Marshal_def PutUint16_def PutUint32_def gene_word_def byte_of_char_def GetSize_def

lemmas load_defs = LoadNet_def Read_def loadStrings_def loadNeurons_def readFile_def filled_def
  Uint16_def Uint32_def neuronFromBytes_def processBytes_def signed_of_def char_of_byte_def

lemma save_a:
  "Save \<lparr>actions = [''x''], frontNeuronSet = [[4294967296]], backNeuronSet = [[3]],
                       sensors = [''a'']\<rparr>
   = [0, 36, 0, 0, 0, 1, 0, 0, 97, 0, 0, 1, 0, 0, 120, 0, 0, 1, 0, 0, 0, 1, 0,
   0, 0, 0, 0, 1, 0, 0, 0, 1, 0, 0, 0, 3, 0, 0, 0, 0]"
  by (simp add: save_defs)

lemma load_a:
  "LoadNet [0, 36, 0, 0, 0, 1, 0, 0, 97, 0, 0, 1, 0, 0, 120, 0, 0, 1, 0, 0, 0, 1, 0,
   0, 0, 0, 0, 1, 0, 0, 0, 1, 0, 0, 0, 3, 0, 0, 0, 0]
   = Returned \<lparr>actions = [''x''], frontNeuronSet = [[0]], backNeuronSet = [[3]],
                  sensors = [''a'']\<rparr>"
  apply (simp add: load_defs)
  apply code_simp
  done

lemma save_nul:
  "Save \<lparr>actions = [[CHR 0x00]], frontNeuronSet = [[1]], backNeuronSet = [[3]],
                       sensors = [''a'']\<rparr>
   = [0, 36, 0, 0, 0, 1, 0, 0, 97, 0, 0, 1, 0, 0, 0, 0, 0, 1, 0, 0, 0, 1, 0,
   0, 0, 1, 0, 1, 0, 0, 0, 1, 0, 0, 0, 3, 0, 0, 0, 0]"
  by (simp add: save_defs)

lemma load_nul:
  "LoadNet [0, 36, 0, 0, 0, 1, 0, 0, 97, 0, 0, 1, 0, 0, 0, 0, 0, 1, 0, 0, 0, 1, 0,
   0, 0, 1, 0, 1, 0, 0, 0, 1, 0, 0, 0, 3, 0, 0, 0, 0]
   = Failed (FrontCount 1 0)"
  apply (simp add: load_defs)
  apply code_simp
  done

text \<open>
  C5 as stated, for every network that \<^verbatim>\<open>NewNeuralNet\<close> accepts, fails twice over.
  A name is saved as its bytes and a zero byte, so a name that contains a zero byte is
  cut there when loaded and the fields behind it are misread: the network with the one
  action whose name is the single byte \<open>0\<close> loads as a construction error. A gene is saved in 32 bits, so a
  gene outside that range loads as another number: \<open>2 ^ 32\<close> loads as \<open>0\<close>.
\<close>

theorem LoadNet_Save_counterexample:
  "NewNeuralNet [''a''] [[CHR 0x00]] [[1]] [[3]]
     = Returned \<lparr>actions = [[CHR 0x00]], frontNeuronSet = [[1]], backNeuronSet = [[3]],
                  sensors = [''a'']\<rparr>
   \<and> LoadNet (Save \<lparr>actions = [[CHR 0x00]], frontNeuronSet = [[1]], backNeuronSet = [[3]],
                       sensors = [''a'']\<rparr>) = Failed (FrontCount 1 0)
   \<and> NewNeuralNet [''a''] [''x''] [[4294967296]] [[3]]
     = Returned \<lparr>actions = [''x''], frontNeuronSet = [[4294967296]], backNeuronSet = [[3]],
                  sensors = [''a'']\<rparr>
   \<and> LoadNet (Save \<lparr>actions = [''x''], frontNeuronSet = [[4294967296]], backNeuronSet = [[3]],
                       sensors = [''a'']\<rparr>)
     = Returned \<lparr>actions = [''x''], frontNeuronSet = [[0]], backNeuronSet = [[3]],
                  sensors = [''a'']\<rparr>"
proof -
  have "NewNeuralNet [''a''] [[CHR 0x00]] [[1]] [[3]]
     = Returned \<lparr>actions = [[CHR 0x00]], frontNeuronSet = [[1]], backNeuronSet = [[3]],
                  sensors = [''a'']\<rparr>"
    by code_simp
  moreover have "NewNeuralNet [''a''] [''x''] [[4294967296]] [[3]]
     = Returned \<lparr>actions = [''x''], frontNeuronSet = [[4294967296]], backNeuronSet = [[3]],
                  sensors = [''a'']\<rparr>"
    by code_simp
  ultimately show ?thesis
    by (simp only: save_nul load_nul save_a load_a simp_thms)
qed

text \<open>
  C5, amended. For a network that \<^verbatim>\<open>NewNeuralNet\<close> accepts, whose names contain no
  zero byte, whose genes lie in the 32-bit two's-complement range and which has fewer
  than \<open>2 ^ 16\<close> sensors and fewer than \<open>2 ^ 16\<close> actions, loading the bytes written
  by \<^verbatim>\<open>Save\<close> returns the same network: the same sorted sensors and actions and the
  same genes in both layers.
\<close>

theorem LoadNet_Save:
  assumes "NewNeuralNet sensors0 actions0 front back = Returned net"
    and "\<forall>name \<in> set (sensors net) \<union> set (actions net). CHR 0x00 \<notin> set name"
    and "\<forall>neu \<in> set (frontNeuronSet net) \<union> set (backNeuronSet net).
           \<forall>g \<in> set neu. - (2 ^ 31) \<le> g \<and> g < 2 ^ 31"
    and "length (sensors net) < 2 ^ 16" and "length (actions net) < 2 ^ 16"
  shows "LoadNet (Save net) = Returned net"
proof -
  have wf: "well_formed net" using assms(1) by (rule NewNeuralNet_Returned(2))
  then have lf: "length (frontNeuronSet net) = length (actions net)"
    and lb: "length (backNeuronSet net) = length (actions net)"
    and sf: "\<forall>n \<in> set (frontNeuronSet net). GetSize n = length (sensors net)"
    and sb: "\<forall>n \<in> set (backNeuronSet net). GetSize n = length (actions net)"
    by (simp_all add: well_formed_def)
  let ?tail4 = "concat (map neuron_bytes (backNeuronSet net)) @ [0, 0, 0, 0]"
  let ?rest3 = "count_field (length (backNeuronSet net)) @ ?tail4"
  let ?rest2 = "count_field (length (frontNeuronSet net))
                @ concat (map neuron_bytes (frontNeuronSet net)) @ ?rest3"
  let ?rest1 = "count_field (length (actions net)) @ concat (map name_bytes (actions net)) @ ?rest2"
  let ?payload = "count_field (length (sensors net)) @ concat (map name_bytes (sensors net)) @ ?rest1"
  have payload: "Save_payload net = ?payload" by (simp add: Save_payload_def)
  have r0: "Read 4 (Save net) = Returned (count_field (length (Save_payload net)), ?payload)"
    unfolding Save_def payload by (rule Read_enough) simp
  have r1: "loadStrings ?payload = Returned (sensors net, ?rest1)"
    using assms(2,4) by (intro loadStrings_names) simp_all
  have r2: "loadStrings ?rest1 = Returned (actions net, ?rest2)"
    using assms(2,5) by (intro loadStrings_names) simp_all
  have r3: "loadNeurons ?rest2 = Returned (frontNeuronSet net, ?rest3)"
    using assms(3,4,5) sf lf by (intro loadNeurons_Marshal) (auto simp add: GetSize_def)
  have r4: "loadNeurons ?rest3 = Returned (backNeuronSet net, [0, 0, 0, 0])"
    using assms(3,5) sb lb by (intro loadNeurons_Marshal) (auto simp add: GetSize_def)
  show ?thesis
    by (simp add: LoadNet_def r0 r1 r2 r3 r4 NewNeuralNet_well_formed [OF wf])
qed

theorem LoadNet_Save_witness:
  "NewNeuralNet [''b'', ''a''] [''x''] [[1, - 2]] [[3]]
     = Returned \<lparr>actions = [''x''], frontNeuronSet = [[1, - 2]], backNeuronSet = [[3]],
                  sensors = [''a'', ''b'']\<rparr>
   \<and> LoadNet (Save \<lparr>actions = [''x''], frontNeuronSet = [[1, - 2]], backNeuronSet = [[3]],
                       sensors = [''a'', ''b'']\<rparr>)
     = Returned \<lparr>actions = [''x''], frontNeuronSet = [[1, - 2]], backNeuronSet = [[3]],
                  sensors = [''a'', ''b'']\<rparr>"
proof -
  let ?net = "\<lparr>actions = [''x''], frontNeuronSet = [[1, - 2]], backNeuronSet = [[3]],
                  sensors = [''a'', ''b'']\<rparr>"
  have built: "NewNeuralNet [''b'', ''a''] [''x''] [[1, - 2]] [[3]] = Returned ?net"
    by code_simp
  have "LoadNet (Save ?net) = Returned ?net"
    by (rule LoadNet_Save [OF built]) simp_all
  with built show ?thesis by simp
qed

section \<open>Encoding and decoding a neuron\<close>

text \<open>
  C1. A neuron built from genes that all lie in the 32-bit two's-complement range, fewer
  than \<open>2 ^ 16\<close> of them, comes back from both encodings: \<^verbatim>\<open>NewNeuron\<close> on the
  bytes of \<^verbatim>\<open>Marshal\<close> and \<^verbatim>\<open>NewNeuron\<close> on the text of \<^verbatim>\<open>String\<close> each
  return a neuron that \<^verbatim>\<open>Equals\<close> the original.
\<close>

theorem NewNeuron_round_trip:
  assumes "\<forall>g \<in> set genes. - (2 ^ 31) \<le> g \<and> g < 2 ^ 31" and "length genes < 2 ^ 16"
  shows "\<exists>neu. NewNeuron (Ints genes) = Returned neu
           \<and> (\<exists>m. NewNeuron (Bytes (Marshal neu)) = Returned m \<and> Equals m neu)
           \<and> (\<exists>m. NewNeuron (Text (String neu)) = Returned m \<and> Equals m neu)"
proof -
  have bin: "neuronFromBytes (Marshal genes) = Returned genes"
    using neuronFromBytes_Marshal [OF assms(2,1), of "[]"] by simp
  have "NewNeuron (Bytes (Marshal genes)) = Returned genes"
    using bin by simp
  moreover have "NewNeuron (Text (String genes)) = Returned genes"
    using bin
    by (simp add: String_Marshal TrimSpace_EncodeToString DecodeString_EncodeToString)
  moreover have "Equals genes genes" by (simp add: Equals_iff)
  ultimately show ?thesis by simp
qed

theorem NewNeuron_round_trip_witness:
  "length [- 5, 0, 256 :: int] < 2 ^ 16
   \<and> NewNeuron (Bytes (Marshal [- 5, 0, 256])) = Returned [- 5, 0, 256]
   \<and> NewNeuron (Text (String [- 5, 0, 256])) = Returned [- 5, 0, 256]"
proof -
  have range: "\<forall>g \<in> set [- 5, 0, 256 :: int]. - (2 ^ 31) \<le> g \<and> g < 2 ^ 31" by simp
  have count: "length [- 5, 0, 256 :: int] < 2 ^ 16" by simp
  from NewNeuron_round_trip [OF range count]
  have "NewNeuron (Bytes (Marshal [- 5, 0, 256])) = Returned [- 5, 0, 256]"
    and "NewNeuron (Text (String [- 5, 0, 256])) = Returned [- 5, 0, 256]"
    by (auto simp add: Equals_iff)
  with count show ?thesis by simp
qed

section \<open>Truncated input\<close>

text \<open>
  C6. A byte sequence with fewer than \<open>2 + 4 * declared_size\<close> bytes should be refused
  with an error. \<^verbatim>\<open>neuronFromBytes\<close> does not do so for the shortest inputs: with no
  byte or one byte, \<^verbatim>\<open>binary.BigEndian.Uint16(input)\<close> panics in the caller's
  goroutine, outside the \<^verbatim>\<open>recover\<close> of \<^verbatim>\<open>processBytes\<close>, and no error is
  returned. The empty string takes the same way through the \<^verbatim>\<open>string\<close> arm of
  \<^verbatim>\<open>NewNeuron\<close>.
\<close>

theorem neuronFromBytes_without_size_panics:
  "neuronFromBytes [] = Panicked
   \<and> neuronFromBytes [0] = Panicked
   \<and> NewNeuron (Bytes []) = Panicked
   \<and> NewNeuron (Text []) = Panicked"
proof -
  have "TrimSpace [] = []"
    by (rule TrimSpace_id) simp
  moreover have "DecodeString [] = Returned []"
    by (simp add: DecodeString_def last_group_bytes_def)
  ultimately show ?thesis
    by (simp add: neuronFromBytes_def Uint16_def)
qed

lemma neuronFromBytes_no_size: "length input < 2 \<Longrightarrow> neuronFromBytes input = Panicked"
  by (simp add: neuronFromBytes_def Uint16_def)

text \<open>
  Once the two size bytes are there, truncation is refused as it should be:
  \<^verbatim>\<open>neuronFromBytes\<close> returns the recovered runtime error and no neuron, whatever
  genes had already been received.
\<close>

theorem neuronFromBytes_truncated:
  "2 \<le> length input \<Longrightarrow> length input < 2 + 4 * declared_size input \<Longrightarrow>
   neuronFromBytes input = Failed RuntimeError"
proof -
  assume two: "2 \<le> length input" and short: "length input < 2 + 4 * declared_size input"
  from two obtain sz where sz: "Uint16 input = Some sz"
    by (auto simp add: Uint16_def)
  with short have "length input < 2 + 4 * unat sz" by (simp add: declared_size_def)
  with sz show ?thesis by (rule neuronFromBytes_short)
qed

theorem neuronFromBytes_truncated_witness:
  "2 \<le> length [0, 2, 0, 0, 0, 1, 0 :: byte]
   \<and> length [0, 2, 0, 0, 0, 1, 0 :: byte] < 2 + 4 * declared_size [0, 2, 0, 0, 0, 1, 0]
   \<and> neuronFromBytes [0, 2, 0, 0, 0, 1, 0] = Failed RuntimeError"
proof -
  have ds: "declared_size [0, 2, 0, 0, 0, 1, 0] = 2"
    by (simp add: declared_size_def Uint16_def)
  show ?thesis
    using neuronFromBytes_truncated [of "[0, 2, 0, 0, 0, 1, 0]"] ds by simp
qed

section \<open>The threshold of Compute\<close>

lemma weighted_sum_exact:
  "weighted_sum exact64_ops acc data genes
     = acc + sum_list (map (\<lambda>(v, gene). v * of_int gene) (zip data genes))"
  unfolding weighted_sum_def
proof (induction "zip data genes" arbitrary: acc data genes)
  case Nil
  then show ?case by (simp add: Nil [symmetric])
next
  case (Cons p ps)
  then obtain v vs gene gs where d: "data = v # vs" "genes = gene # gs" "p = (v, gene)"
    "ps = zip vs gs"
    by (cases data; cases genes) auto
  then show ?case using Cons(1) [of vs gs] by (simp add: exact64_ops_def)
qed

lemma weighted_sum_real_sum:
  "weighted_sum exact64_ops (f_zero exact64_ops) data neu = real_sum neu data"
proof -
  have z: "f_zero exact64_ops = 0" by (simp add: exact64_ops_def)
  show ?thesis unfolding z weighted_sum_exact real_sum_def by simp
qed

lemma exact64_threshold:
  "threshold exact64_ops x = (if 0 < x then int_of_float x else 0)"
  by (simp add: threshold_def exact64_ops_def)

lemma int_of_float_fits: "- (2 ^ 63) \<le> int_of_float x \<and> int_of_float x < 2 ^ 63"
  by (simp add: int_of_float_def)

text \<open>
  Whatever the arithmetic, a conversion that gives a 64-bit \<^verbatim>\<open>int\<close> cannot give
  \<open>2 ^ 63\<close>, so \<^verbatim>\<open>Compute\<close> never returns it.
\<close>

lemma Compute_fits_int:
  assumes "\<forall>x. - (2 ^ 63) \<le> f_to_int ops x \<and> f_to_int ops x < 2 ^ 63"
  shows "Compute ops neu data \<noteq> Returned (2 ^ 63)"
proof (cases "length data = GetSize neu")
  case True
  have "threshold ops (weighted_sum ops (f_zero ops) data neu) < 2 ^ 63"
    using assms by (simp add: threshold_def)
  then show ?thesis using True by (simp add: Compute_value)
next
  case False
  then show ?thesis by (simp add: Compute_def)
qed

text \<open>
  C3 as stated fails where the sum leaves the range of \<^verbatim>\<open>int\<close>. With the one gene
  \<open>1\<close> and the parameter \<open>2 ^ 63\<close>, which \<^verbatim>\<open>float64\<close> holds exactly, the sum is
  \<open>2 ^ 63\<close> and strictly positive, and its truncation is \<open>2 ^ 63\<close>; \<^verbatim>\<open>Compute\<close>
  returns the \<^verbatim>\<open>int\<close> that the conversion gives, which is another number.
\<close>

theorem Compute_beyond_int_range:
  "length [9223372036854775808 :: rat] = GetSize [1]
   \<and> 0 < real_sum [1] [9223372036854775808]
   \<and> spec_Compute [1] [9223372036854775808] = 9223372036854775808
   \<and> Compute exact64_ops [1] [9223372036854775808] = Returned (- 9223372036854775808)
   \<and> Compute exact64_ops [1] [9223372036854775808]
       \<noteq> Returned (spec_Compute [1] [9223372036854775808])"
  by (simp add: GetSize_def real_sum_def spec_Compute_def trunc_zero_def Compute_def GetGene_def
      exact64_ops_def int_of_float_def)

text \<open>
  C3, amended. With as many parameters as genes, \<^verbatim>\<open>Compute\<close> returns
  \<^verbatim>\<open>int(sum)\<close> when \<^verbatim>\<open>sum > 0\<close> and \<open>0\<close> otherwise, where \<^verbatim>\<open>sum\<close> is what
  the machine's arithmetic adds up from zero, product by product in the order of the
  genes. Where that arithmetic is exact and the sum is below \<open>2 ^ 63\<close>, this is the
  truncation towards zero of the real-valued sum when the sum is strictly positive, and
  \<open>0\<close> when it is not. The genes \<open>[-5, -4, -3, -2, -1, 0, 1, 2, 3, 4]\<close> with the
  parameters \<open>0, 0, 0, 0, 0, 1, 1, 1, 1, 1\<close> give \<open>10\<close>.
\<close>

theorem Compute_threshold:
  "(length data = GetSize neu \<longrightarrow>
      Compute ops neu data
        = Returned (if f_gt_zero ops (weighted_sum ops (f_zero ops) data neu)
                    then f_to_int ops (weighted_sum ops (f_zero ops) data neu) else 0))
   \<and> (length qs = GetSize neu \<and> real_sum neu qs < 2 ^ 63 \<longrightarrow>
        Compute exact64_ops neu qs = Returned (spec_Compute neu qs)
      \<and> (0 < real_sum neu qs \<longrightarrow> Compute exact64_ops neu qs = Returned (trunc_zero (real_sum neu qs)))
      \<and> (real_sum neu qs \<le> 0 \<longrightarrow> Compute exact64_ops neu qs = Returned 0))
   \<and> Compute exact64_ops [- 5, - 4, - 3, - 2, - 1, 0, 1, 2, 3, 4] [0, 0, 0, 0, 0, 1, 1, 1, 1, 1]
       = Returned 10"
proof -
  have general: "Compute ops neu data
        = Returned (if f_gt_zero ops (weighted_sum ops (f_zero ops) data neu)
                    then f_to_int ops (weighted_sum ops (f_zero ops) data neu) else 0)"
    if "length data = GetSize neu"
    using that by (simp add: Compute_value threshold_def)
  have exact: "Compute exact64_ops neu qs = Returned (spec_Compute neu qs)"
    if len: "length qs = GetSize neu" and small: "real_sum neu qs < 2 ^ 63"
  proof -
    have run: "Compute exact64_ops neu qs = Returned (threshold exact64_ops (real_sum neu qs))"
      using len by (simp add: Compute_value weighted_sum_real_sum)
    show ?thesis
    proof (cases "0 < real_sum neu qs")
      case True
      then have "0 \<le> \<lfloor>real_sum neu qs\<rfloor>" by simp
      moreover have "\<lfloor>real_sum neu qs\<rfloor> < 2 ^ 63"
        using small by (simp add: floor_less_iff)
      ultimately have "int_of_float (real_sum neu qs) = trunc_zero (real_sum neu qs)"
        using True by (simp add: int_of_float_def trunc_zero_def)
      then show ?thesis
        using True by (simp add: run exact64_threshold spec_Compute_def)
    next
      case False
      then show ?thesis
        by (simp add: run exact64_threshold spec_Compute_def)
    qed
  qed
  have example: "Compute exact64_ops [- 5, - 4, - 3, - 2, - 1, 0, 1, 2, 3, 4]
                   [0, 0, 0, 0, 0, 1, 1, 1, 1, 1] = Returned 10"
    by (simp add: Compute_def GetSize_def GetGene_def exact64_ops_def int_of_float_def
        trunc_zero_def)
  from general exact example show ?thesis
    by (auto simp add: spec_Compute_def)
qed

theorem Compute_threshold_witness:
  "length [0, 0, 0, 0, 0, 0, 0, 0, 0, 5 / 2 :: rat] = GetSize [- 5, - 4, - 3, - 2, - 1, 0, 1, 2, 3, 4]
   \<and> real_sum [- 5, - 4, - 3, - 2, - 1, 0, 1, 2, 3, 4] [0, 0, 0, 0, 0, 0, 0, 0, 0, 5 / 2] = 10
   \<and> Compute exact64_ops [- 5, - 4, - 3, - 2, - 1, 0, 1, 2, 3, 4]
         [0, 0, 0, 0, 0, 0, 0, 0, 0, 5 / 2] = Returned 10
   \<and> real_sum [- 5, - 4, - 3, - 2, - 1, 0, 1, 2, 3, 4] [5 / 2, 0, 0, 0, 0, 0, 0, 0, 0, 0] = - 25 / 2
   \<and> Compute exact64_ops [- 5, - 4, - 3, - 2, - 1, 0, 1, 2, 3, 4]
         [5 / 2, 0, 0, 0, 0, 0, 0, 0, 0, 0] = Returned 0"
proof -
  let ?neu = "[- 5, - 4, - 3, - 2, - 1, 0, 1, 2, 3, 4] :: int list"
  let ?up = "[0, 0, 0, 0, 0, 0, 0, 0, 0, 5 / 2] :: rat list"
  let ?down = "[5 / 2, 0, 0, 0, 0, 0, 0, 0, 0, 0] :: rat list"
  have len: "length ?up = GetSize ?neu" "length ?down = GetSize ?neu"
    by (simp_all add: GetSize_def)
  have up: "real_sum ?neu ?up = 10" and down: "real_sum ?neu ?down = - 25 / 2"
    by (simp_all add: real_sum_def)
  have small: "real_sum ?neu ?up < 2 ^ 63" "real_sum ?neu ?down < 2 ^ 63"
    by (simp_all add: up down)
  have pos: "0 < real_sum ?neu ?up" and neg: "real_sum ?neu ?down \<le> 0"
    by (simp_all add: up down)
  from Compute_threshold [of ?up ?neu exact64_ops ?up] len(1) small(1) pos
  have "Compute exact64_ops ?neu ?up = Returned (trunc_zero (real_sum ?neu ?up))"
    by blast
  then have a: "Compute exact64_ops ?neu ?up = Returned 10"
    by (simp add: up trunc_zero_def)
  from Compute_threshold [of ?down ?neu exact64_ops ?down] len(2) small(2) neg
  have b: "Compute exact64_ops ?neu ?down = Returned 0"
    by blast
  from len(1) up a down b show ?thesis by (intro conjI)
qed

end
